theory Spec2Isabelle
  imports Main "HOL-Library.AList" "HOL-Library.Sublist"
begin

section \<open>Strings and paths\<close>

text \<open>
  The program builds every path with the backslash as separator
  (\<^verbatim>\<open>entry.path.split("\\")\<close>, \<^verbatim>\<open>"\\".join(...)\<close>) and with
  \<^verbatim>\<open>os.path.join\<close>, so the model is the one of a Windows host: a path is a string,
  its components are separated by backslashes.
\<close>

definition BS :: char where
  "BS = CHR 0x5C"

text \<open>Python's \<^verbatim>\<open>s.split(sep)\<close> for a one-character separator.\<close>

fun split_on :: "char \<Rightarrow> string \<Rightarrow> string list" where
  "split_on sep [] = [[]]"
| "split_on sep (c # cs) =
     (if c = sep then [] # split_on sep cs
      else (case split_on sep cs of
              [] \<Rightarrow> [[c]]
            | w # ws \<Rightarrow> (c # w) # ws))"

text \<open>Python's \<^verbatim>\<open>sep.join(xs)\<close>.\<close>

fun join_with :: "string \<Rightarrow> string list \<Rightarrow> string" where
  "join_with sep [] = []"
| "join_with sep [x] = x"
| "join_with sep (x # y # ys) = x @ sep @ join_with sep (y # ys)"

text \<open>
  \<^verbatim>\<open>os.path.join(a, b)\<close> of \<^verbatim>\<open>ntpath\<close> for a second argument that is relative and
  has no drive (the only way the program calls it): the separator is inserted unless the
  first argument is empty or already ends with a separator or a colon.
\<close>

definition path_join :: "string \<Rightarrow> string \<Rightarrow> string" where
  "path_join a b =
     (if a = [] then b
      else if last a = BS \<or> last a = CHR ''/'' \<or> last a = CHR '':'' then a @ b
      else a @ [BS] @ b)"

text \<open>
  The relative path as the listing functions compute it:
  \<^verbatim>\<open>"\\".join(entry.path.split("\\")[2::])\<close>.
\<close>

definition rel_path :: "string \<Rightarrow> string" where
  "rel_path p = join_with [BS] (drop 2 (split_on BS p))"

text \<open>
  How the file system reads a path: the components between backslashes, where an empty
  component (a doubled or trailing separator) and \<^verbatim>\<open>.\<close> stay in the same directory.
  The name space starts at the process's working directory, and a drive such as
  \<^verbatim>\<open>C:\<close> is an entry of the top node like any other. Paths with \<^verbatim>\<open>..\<close> or with
  forward slashes are outside the model.
\<close>

definition comps :: "string \<Rightarrow> string list" where
  "comps p = filter (\<lambda>c. c \<noteq> [] \<and> c \<noteq> ''.'') (split_on BS p)"

section \<open>The file system\<close>

type_synonym bytes = "nat list"

text \<open>
  A regular file has its bytes, a modification time and permission bits; a directory has
  its entries in the order \<^verbatim>\<open>os.scandir\<close> yields them. Symbolic links are not modelled.
\<close>

datatype node =
    File (content: bytes) (mtime: nat) (mode: nat)
  | Dir "(string \<times> node) list"

fun lookup :: "string list \<Rightarrow> node \<Rightarrow> node option" where
  "lookup [] n = Some n"
| "lookup (c # cs) n =
     (case n of
        File b t m \<Rightarrow> None
      | Dir es \<Rightarrow> (case map_of es c of None \<Rightarrow> None | Some k \<Rightarrow> lookup cs k))"

text \<open>
  \<open>alter cs v n\<close> sets the entry at the components \<open>cs\<close> to \<open>v\<close> (\<open>None\<close> deletes
  it) when its parent is an existing directory; a new entry goes to the end of its
  directory. The top node itself is never replaced.
\<close>

fun alter :: "string list \<Rightarrow> node option \<Rightarrow> node \<Rightarrow> node" where
  "alter [] v n = n"
| "alter [c] v n =
     (case n of
        File b t m \<Rightarrow> n
      | Dir es \<Rightarrow> (case v of
                    None \<Rightarrow> Dir (AList.delete c es)
                  | Some k \<Rightarrow> Dir (AList.update c k es)))"
| "alter (c # d # cs) v n =
     (case n of
        File b t m \<Rightarrow> n
      | Dir es \<Rightarrow> (case map_of es c of
                    None \<Rightarrow> n
                  | Some k \<Rightarrow> Dir (AList.update c (alter (d # cs) v k) es)))"

definition path_exists :: "node \<Rightarrow> string \<Rightarrow> bool" where
  "path_exists fs p = (lookup (comps p) fs \<noteq> None)"

definition is_dir :: "node \<Rightarrow> string \<Rightarrow> bool" where
  "is_dir fs p = (case lookup (comps p) fs of Some (Dir es) \<Rightarrow> True | _ \<Rightarrow> False)"

definition is_file :: "node \<Rightarrow> string \<Rightarrow> bool" where
  "is_file fs p = (case lookup (comps p) fs of Some (File b t m) \<Rightarrow> True | _ \<Rightarrow> False)"

section \<open>The world: file system, mutations and log\<close>

datatype error =
    FileNotFoundError
  | NotADirectoryError
  | FileExistsError
  | PermissionError
  | SameFileError
  | TypeError
  | ValueError

text \<open>
  Every mutating library call and every call of \<^verbatim>\<open>add_log\<close> is recorded, in order,
  in the trace of the world. A log entry is its action tag and its path; the time stamp
  that \<^verbatim>\<open>add_log\<close> puts in front is not modelled, and the log file is a sink apart
  from the two trees.
\<close>

datatype event =
    Mkdir string
  | Rmtree string
  | Remove string
  | Copy2 string string
  | Log string string

record world =
  fs :: node
  events :: "event list"

type_synonym 'a result = "(error + 'a) \<times> world"

text \<open>\<^verbatim>\<open>os.scandir(path)\<close>: the entries of a directory, each with its name.\<close>

definition scandir :: "node \<Rightarrow> string \<Rightarrow> error + (string \<times> node) list" where
  "scandir t p =
     (case lookup (comps p) t of
        None \<Rightarrow> Inl FileNotFoundError
      | Some (File b m k) \<Rightarrow> Inl NotADirectoryError
      | Some (Dir es) \<Rightarrow> Inr es)"

text \<open>
  \<^verbatim>\<open>os.mkdir(path)\<close> creates one directory, not its parents: it fails when the path
  exists, when the parent is missing, and when the parent is a regular file (reported
  apart here; a Windows host reports it as path not found as well).
\<close>

definition os_mkdir :: "string \<Rightarrow> world \<Rightarrow> unit result" where
  "os_mkdir p w =
     (let cs = comps p in
      if lookup cs (fs w) \<noteq> None then (Inl FileExistsError, w)
      else (case lookup (butlast cs) (fs w) of
              None \<Rightarrow> (Inl FileNotFoundError, w)
            | Some (File b m k) \<Rightarrow> (Inl NotADirectoryError, w)
            | Some (Dir es) \<Rightarrow>
                (Inr (), w\<lparr>fs := alter cs (Some (Dir [])) (fs w),
                           events := events w @ [Mkdir p]\<rparr>)))"

text \<open>\<^verbatim>\<open>shutil.rmtree(path)\<close> removes a directory with everything below it.\<close>

definition shutil_rmtree :: "string \<Rightarrow> world \<Rightarrow> unit result" where
  "shutil_rmtree p w =
     (let cs = comps p in
      case lookup cs (fs w) of
        None \<Rightarrow> (Inl FileNotFoundError, w)
      | Some (File b m k) \<Rightarrow> (Inl NotADirectoryError, w)
      | Some (Dir es) \<Rightarrow>
          if cs = [] then (Inl PermissionError, w)
          else (Inr (), w\<lparr>fs := alter cs None (fs w), events := events w @ [Rmtree p]\<rparr>))"

text \<open>\<^verbatim>\<open>os.remove(path)\<close> removes a regular file.\<close>

definition os_remove :: "string \<Rightarrow> world \<Rightarrow> unit result" where
  "os_remove p w =
     (let cs = comps p in
      case lookup cs (fs w) of
        None \<Rightarrow> (Inl FileNotFoundError, w)
      | Some (Dir es) \<Rightarrow> (Inl PermissionError, w)
      | Some (File b m k) \<Rightarrow>
          (Inr (), w\<lparr>fs := alter cs None (fs w), events := events w @ [Remove p]\<rparr>))"

definition basename :: "string \<Rightarrow> string" where
  "basename p = last (split_on BS p)"

text \<open>
  \<^verbatim>\<open>shutil.copy2(src, dst)\<close>: the source is opened first, a destination that is a
  directory stands for the file of the same name inside it, and the copy carries the
  bytes with the modification time and the permission bits.
\<close>

definition shutil_copy2 :: "string \<Rightarrow> string \<Rightarrow> world \<Rightarrow> unit result" where
  "shutil_copy2 src dst w =
     (let dst' = (if is_dir (fs w) dst then path_join dst (basename src) else dst);
          cs = comps dst'
      in if path_exists (fs w) src \<and> comps src = cs then (Inl SameFileError, w)
         else (case lookup (comps src) (fs w) of
                 None \<Rightarrow> (Inl FileNotFoundError, w)
               | Some (Dir es) \<Rightarrow> (Inl PermissionError, w)
               | Some (File b m k) \<Rightarrow>
                   (case lookup cs (fs w) of
                      Some (Dir es) \<Rightarrow> (Inl PermissionError, w)
                    | _ \<Rightarrow>
                       (case lookup (butlast cs) (fs w) of
                          None \<Rightarrow> (Inl FileNotFoundError, w)
                        | Some (File b' m' k') \<Rightarrow> (Inl NotADirectoryError, w)
                        | Some (Dir es) \<Rightarrow>
                            (Inr (), w\<lparr>fs := alter cs (Some (File b m k)) (fs w),
                                       events := events w @ [Copy2 src dst]\<rparr>)))))"

text \<open>Opening a file for reading and reading all of it.\<close>

definition read_file :: "node \<Rightarrow> string \<Rightarrow> error + bytes" where
  "read_file t p =
     (case lookup (comps p) t of
        None \<Rightarrow> Inl FileNotFoundError
      | Some (Dir es) \<Rightarrow> Inl PermissionError
      | Some (File b m k) \<Rightarrow> Inr b)"

section \<open>Hashing\<close>

text \<open>
  \<^verbatim>\<open>hashlib.sha256\<close> is a library: the model takes a streaming hash as a parameter,
  with its initial state, its \<^verbatim>\<open>update\<close> and its \<^verbatim>\<open>hexdigest\<close>.
\<close>

record 'h hasher =
  h_new :: 'h
  h_update :: "'h \<Rightarrow> bytes \<Rightarrow> 'h"
  h_hexdigest :: "'h \<Rightarrow> string"

definition BUFF_SIZE :: nat where
  "BUFF_SIZE = 65536"

text \<open>
  The reading loop of \<^verbatim>\<open>compare_files\<close>: chunks of \<^verbatim>\<open>BUFF_SIZE\<close> bytes are fed to
  the hash until a read returns nothing.
\<close>

function hash_loop :: "'h hasher \<Rightarrow> 'h \<Rightarrow> bytes \<Rightarrow> 'h" where
  "hash_loop H st rest =
     (let data = take BUFF_SIZE rest in
      if data = [] then st
      else hash_loop H (h_update H st data) (drop BUFF_SIZE rest))"
  by pat_completeness auto
termination
  by (relation "measure (\<lambda>(H, st, rest). length rest)") (auto simp: BUFF_SIZE_def)

definition stream_digest :: "'h hasher \<Rightarrow> bytes \<Rightarrow> string" where
  "stream_digest H b = h_hexdigest H (hash_loop H (h_new H) b)"

definition compare_files :: "'h hasher \<Rightarrow> node \<Rightarrow> string \<Rightarrow> string \<Rightarrow> error + bool" where
  "compare_files H t source_file replica_file =
     (case read_file t source_file of
        Inl e \<Rightarrow> Inl e
      | Inr sb \<Rightarrow>
          (case read_file t replica_file of
             Inl e \<Rightarrow> Inl e
           | Inr rb \<Rightarrow> Inr (stream_digest H sb = stream_digest H rb)))"

section \<open>The class SyncFiles\<close>

record SyncFiles =
  source_path :: string
  replica_path :: string
  log_path :: string
  sync_interval :: string
  source_folders :: "string list"
  replica_folders :: "string list"
  source_files :: "string list"
  replica_files :: "string list"

text \<open>
  \<^verbatim>\<open>__init__\<close> stores a copy of each list argument; as values, the copies are the lists
  themselves. The sharing that the copies prevent is the subject of the store model at
  the end of this theory.
\<close>

definition init :: "string \<Rightarrow> string \<Rightarrow> string \<Rightarrow> string \<Rightarrow>
    string list \<Rightarrow> string list \<Rightarrow> string list \<Rightarrow> string list \<Rightarrow> SyncFiles" where
  "init sp rp lp si sfo rfo sfi rfi =
     \<lparr>source_path = sp, replica_path = rp, log_path = lp, sync_interval = si,
      source_folders = sfo, replica_folders = rfo, source_files = sfi, replica_files = rfi\<rparr>"

definition add_log :: "string \<Rightarrow> string \<Rightarrow> string \<Rightarrow> world \<Rightarrow> unit result" where
  "add_log action changes_path file_path w =
     (Inr (), w\<lparr>events := events w @ [Log action changes_path]\<rparr>)"

subsection \<open>Listing\<close>

text \<open>
  The loop of \<^verbatim>\<open>list_dirs\<close> over the entries of one directory. The recursive call
  scans \<^verbatim>\<open>entry.path\<close>, which is the directory of that entry: the model descends into
  the subtree it holds. The list is the accumulator the calls append to.
\<close>

fun list_dirs_entries :: "string list \<Rightarrow> string \<Rightarrow> (string \<times> node) list \<Rightarrow> string list" where
  "list_dirs_entries acc path [] = acc"
| "list_dirs_entries acc path ((name, File b m k) # es) = list_dirs_entries acc path es"
| "list_dirs_entries acc path ((name, Dir sub) # es) =
     list_dirs_entries
       (list_dirs_entries (acc @ [rel_path (path_join path name)]) (path_join path name) sub)
       path es"

definition list_dirs :: "node \<Rightarrow> string list \<Rightarrow> string \<Rightarrow> error + string list" where
  "list_dirs t target_folder_content path =
     (case scandir t path of
        Inl e \<Rightarrow> Inl e
      | Inr es \<Rightarrow> Inr (list_dirs_entries target_folder_content path es))"

fun list_files_entries :: "string list \<Rightarrow> string \<Rightarrow> (string \<times> node) list \<Rightarrow> string list" where
  "list_files_entries acc path [] = acc"
| "list_files_entries acc path ((name, File b m k) # es) =
     list_files_entries (acc @ [rel_path (path_join path name)]) path es"
| "list_files_entries acc path ((name, Dir sub) # es) =
     list_files_entries (list_files_entries acc (path_join path name) sub) path es"

definition list_files :: "node \<Rightarrow> string list \<Rightarrow> string \<Rightarrow> error + string list" where
  "list_files t file_list path =
     (case scandir t path of
        Inl e \<Rightarrow> Inl e
      | Inr es \<Rightarrow> Inr (list_files_entries file_list path es))"

subsection \<open>Synchronisation\<close>

text \<open>A \<^verbatim>\<open>for\<close> loop over a list that stops at the first exception.\<close>

fun for_each :: "('a \<Rightarrow> world \<Rightarrow> unit result) \<Rightarrow> 'a list \<Rightarrow> world \<Rightarrow> unit result" where
  "for_each body [] w = (Inr (), w)"
| "for_each body (x # xs) w =
     (case body x w of
        (Inl e, w') \<Rightarrow> (Inl e, w')
      | (Inr u, w') \<Rightarrow> for_each body xs w')"

definition then_do :: "unit result \<Rightarrow> (world \<Rightarrow> unit result) \<Rightarrow> unit result" where
  "then_do r k = (case r of (Inl e, w') \<Rightarrow> (Inl e, w') | (Inr u, w') \<Rightarrow> k w')"

definition create_dir :: "SyncFiles \<Rightarrow> string \<Rightarrow> world \<Rightarrow> unit result" where
  "create_dir self d w =
     (if \<not> path_exists (fs w) (path_join (replica_path self) d)
         \<and> path_exists (fs w) (path_join (source_path self) d)
      then then_do (os_mkdir (path_join (replica_path self) d) w)
             (add_log ''CREATED'' (path_join (replica_path self) d) (log_path self))
      else (Inr (), w))"

definition delete_dir :: "SyncFiles \<Rightarrow> string \<Rightarrow> world \<Rightarrow> unit result" where
  "delete_dir self d w =
     (if path_exists (fs w) (path_join (replica_path self) d)
         \<and> \<not> path_exists (fs w) (path_join (source_path self) d)
      then then_do (shutil_rmtree (path_join (replica_path self) d) w)
             (add_log ''REMOVED'' (path_join (replica_path self) d) (log_path self))
      else (Inr (), w))"

definition sync_folders :: "SyncFiles \<Rightarrow> world \<Rightarrow> SyncFiles result" where
  "sync_folders self w =
     (case list_dirs (fs w) (source_folders self) (source_path self) of
        Inl e \<Rightarrow> (Inl e, w)
      | Inr source_dirs \<Rightarrow>
          (case list_dirs (fs w) (replica_folders self) (replica_path self) of
             Inl e \<Rightarrow> (Inl e, w)
           | Inr replica_dirs \<Rightarrow>
               (case then_do (for_each (create_dir self) source_dirs w)
                       (for_each (delete_dir self) replica_dirs) of
                  (Inl e, w') \<Rightarrow> (Inl e, w')
                | (Inr u, w') \<Rightarrow>
                    (Inr (self\<lparr>source_folders := source_dirs,
                               replica_folders := replica_dirs\<rparr>), w'))))"

definition copy_file :: "'h hasher \<Rightarrow> SyncFiles \<Rightarrow> string \<Rightarrow> world \<Rightarrow> unit result" where
  "copy_file H self f w =
     (let rep_file = path_join (replica_path self) f;
          src_file = path_join (source_path self) f
      in if \<not> path_exists (fs w) rep_file \<and> path_exists (fs w) src_file
         then then_do (shutil_copy2 src_file rep_file w)
                (add_log ''CREATED'' rep_file (log_path self))
         else if path_exists (fs w) rep_file \<and> path_exists (fs w) src_file
         then (case compare_files H (fs w) rep_file src_file of
                 Inl e \<Rightarrow> (Inl e, w)
               | Inr same \<Rightarrow>
                   if \<not> same
                   then then_do (then_do (os_remove rep_file w) (shutil_copy2 src_file rep_file))
                          (add_log ''MODIFIED'' rep_file (log_path self))
                   else (Inr (), w))
         else (Inr (), w))"

definition delete_file :: "SyncFiles \<Rightarrow> string \<Rightarrow> world \<Rightarrow> unit result" where
  "delete_file self f w =
     (if path_exists (fs w) (path_join (replica_path self) f)
         \<and> \<not> path_exists (fs w) (path_join (source_path self) f)
      then then_do (os_remove (path_join (replica_path self) f) w)
             (add_log ''REMOVED'' (path_join (replica_path self) f) (log_path self))
      else (Inr (), w))"

definition sync_files :: "'h hasher \<Rightarrow> SyncFiles \<Rightarrow> world \<Rightarrow> SyncFiles result" where
  "sync_files H self w =
     (case list_files (fs w) (source_files self) (source_path self) of
        Inl e \<Rightarrow> (Inl e, w)
      | Inr src_files \<Rightarrow>
          (case list_files (fs w) (replica_files self) (replica_path self) of
             Inl e \<Rightarrow> (Inl e, w)
           | Inr rep_files \<Rightarrow>
               (case then_do (for_each (copy_file H self) src_files w)
                       (for_each (delete_file self) rep_files) of
                  (Inl e, w') \<Rightarrow> (Inl e, w')
                | (Inr u, w') \<Rightarrow>
                    (Inr (self\<lparr>source_files := src_files, replica_files := rep_files\<rparr>), w'))))"

definition full_sync :: "'h hasher \<Rightarrow> SyncFiles \<Rightarrow> world \<Rightarrow> SyncFiles result" where
  "full_sync H self w =
     (case sync_folders self w of
        (Inl e, w') \<Rightarrow> (Inl e, w')
      | (Inr self1, w1) \<Rightarrow>
          (case sync_files H self1 w1 of
             (Inl e, w') \<Rightarrow> (Inl e, w')
           | (Inr self2, w2) \<Rightarrow>
               (Inr (self2\<lparr>source_folders := [], source_files := [],
                           replica_folders := [], replica_files := []\<rparr>), w2)))"

section \<open>The launcher\<close>

text \<open>
  A character stands for a code point below 256. On these, \<^verbatim>\<open>str.isnumeric\<close> accepts
  the decimal digits, the superscripts one, two and three, and the fractions one quarter,
  one half and three quarters; \<^verbatim>\<open>int\<close> accepts the decimal digits only. Signs, blanks
  and underscores, which \<^verbatim>\<open>int\<close> would read, are left out of \<open>py_int\<close>: no string
  that has one passes \<^verbatim>\<open>isnumeric\<close>.
\<close>

definition is_decimal :: "char \<Rightarrow> bool" where
  "is_decimal c = (48 \<le> (of_char c :: nat) \<and> (of_char c :: nat) \<le> 57)"

definition is_numeric_char :: "char \<Rightarrow> bool" where
  "is_numeric_char c =
     (is_decimal c \<or> (of_char c :: nat) \<in> {0xB2, 0xB3, 0xB9, 0xBC, 0xBD, 0xBE})"

definition isnumeric :: "string \<Rightarrow> bool" where
  "isnumeric s = (s \<noteq> [] \<and> list_all is_numeric_char s)"

definition py_int :: "string \<Rightarrow> nat option" where
  "py_int s =
     (if s \<noteq> [] \<and> list_all is_decimal s
      then Some (foldl (\<lambda>a c. 10 * a + ((of_char c :: nat) - 48)) 0 s)
      else None)"

text \<open>
  The loop \<^verbatim>\<open>while True\<close> of the launcher. The process sleeps between two cycles,
  and whatever other processes do to the file system happens then: the list holds one
  change of the file system per sleep, and the loop is followed for as long as the list
  lasts. \<open>Inr ()\<close> says that the process is still running, \<open>Inl e\<close> that it has ended
  with the exception \<open>e\<close>.
\<close>

fun main_loop :: "'h hasher \<Rightarrow> (node \<Rightarrow> node) list \<Rightarrow> string list \<Rightarrow> world \<Rightarrow> unit result" where
  "main_loop H [] argv w = (Inr (), w)"
| "main_loop H (ext # exts) argv w =
     (case full_sync H (init (argv ! 1) (argv ! 2) (argv ! 3) (argv ! 4) [] [] [] []) w of
        (Inl e, w') \<Rightarrow> (Inl e, w')
      | (Inr self', w') \<Rightarrow>
          (case py_int (argv ! 4) of
             None \<Rightarrow> (Inl ValueError, w')
           | Some seconds \<Rightarrow> main_loop H exts argv (w'\<lparr>fs := ext (fs w')\<rparr>)))"

text \<open>
  The checks before the loop. \<^verbatim>\<open>os.path.abspath\<close> anchors a path at the working
  directory, which is where the name space of the model starts.
\<close>

definition main :: "'h hasher \<Rightarrow> (node \<Rightarrow> node) list \<Rightarrow> string list \<Rightarrow> world \<Rightarrow> unit result" where
  "main H exts argv w =
     (if length argv = 5 then
        (if list_ex (\<lambda>i. \<not> path_exists (fs w) i) (take 3 (drop 1 argv))
         then (Inl FileNotFoundError, w)
         else if \<not> isnumeric (argv ! 4) then (Inl ValueError, w)
         else main_loop H exts argv w)
      else (Inl TypeError, w))"

section \<open>The lists of an instance as objects\<close>

text \<open>
  Python lists are objects: two names may hold the same list, and an append through one is
  seen through the other. The store maps the address of each list object to its contents.
  The four default arguments of \<^verbatim>\<open>__init__\<close> are four list objects made once, when the
  class is defined.
\<close>

record store =
  heap :: "nat \<Rightarrow> string list option"
  next_addr :: nat



text \<open>\<^verbatim>\<open>x.append(v)\<close> on the object at an address.\<close>

definition list_append :: "nat \<Rightarrow> string \<Rightarrow> store \<Rightarrow> store" where
  "list_append a v st =
     (case heap st a of
        None \<Rightarrow> st
      | Some xs \<Rightarrow> st\<lparr>heap := (heap st)(a \<mapsto> xs @ [v])\<rparr>)"






text \<open>Appends through the attributes of an instance, one after the other.\<close>

fun appends :: "(nat \<times> string) list \<Rightarrow> store \<Rightarrow> store" where
  "appends [] st = st"
| "appends ((a, v) # ops) st = appends ops (list_append a v st)"

section \<open>Traces in which every mutation is logged\<close>


section \<open>Trees as sets of paths\<close>

text \<open>
  A name as a Windows directory can hold it: not empty, not the dot, and without a
  backslash, a slash or a colon.
\<close>

definition good_name :: "string \<Rightarrow> bool" where
  "good_name n = (n \<noteq> [] \<and> n \<noteq> ''.'' \<and> BS \<notin> set n \<and> CHR ''/'' \<notin> set n \<and> CHR '':'' \<notin> set n)"

text \<open>The entries of a directory, and of every directory below, have good and different names.\<close>

fun wf_entries :: "(string \<times> node) list \<Rightarrow> bool" where
  "wf_entries [] = True"
| "wf_entries ((name, File b m k) # es) = (good_name name \<and> name \<notin> fst ` set es \<and> wf_entries es)"
| "wf_entries ((name, Dir sub) # es) =
     (good_name name \<and> name \<notin> fst ` set es \<and> wf_entries sub \<and> wf_entries es)"

text \<open>
  The directories and the files below a directory, each as the list of its components
  from that directory on, in the order of the recursive listing.
\<close>

fun dirs_of :: "(string \<times> node) list \<Rightarrow> string list list" where
  "dirs_of [] = []"
| "dirs_of ((name, File b m k) # es) = dirs_of es"
| "dirs_of ((name, Dir sub) # es) = [name] # map ((#) name) (dirs_of sub) @ dirs_of es"

fun files_of :: "(string \<times> node) list \<Rightarrow> string list list" where
  "files_of [] = []"
| "files_of ((name, File b m k) # es) = [name] # files_of es"
| "files_of ((name, Dir sub) # es) = map ((#) name) (files_of sub) @ files_of es"

text \<open>The path of an entry as the listing builds it: one \<^verbatim>\<open>os.path.join\<close> for each component.\<close>

definition below :: "string \<Rightarrow> string list \<Rightarrow> string" where
  "below r cs = foldl path_join r cs"

text \<open>A root after which \<^verbatim>\<open>os.path.join\<close> puts a separator.\<close>

definition plain_root :: "string \<Rightarrow> bool" where
  "plain_root r = (r \<noteq> [] \<and> last r \<noteq> BS \<and> last r \<noteq> CHR ''/'' \<and> last r \<noteq> CHR '':'')"

text \<open>
  Every path of the list with more than one component comes after its parent, which is
  in the list or among the paths seen before.
\<close>

fun parents_first :: "string list set \<Rightarrow> string list list \<Rightarrow> bool" where
  "parents_first seen [] = True"
| "parents_first seen (y # ys) =
     ((length y \<le> 1 \<or> butlast y \<in> seen) \<and> parents_first (insert y seen) ys)"

text \<open>
  What the existence tests and the readers see of an entry: nothing for a directory, the
  bytes and the metadata for a file.
\<close>

fun kind :: "node \<Rightarrow> (bytes \<times> nat \<times> nat) option" where
  "kind (File b m k) = Some (b, m, k)"
| "kind (Dir es) = None"

definition look :: "node \<Rightarrow> string list \<Rightarrow> (bytes \<times> nat \<times> nat) option option" where
  "look t cs = map_option kind (lookup cs t)"

text \<open>A node whose entries, if it is a directory, are well formed.\<close>

definition wf_node :: "node \<Rightarrow> bool" where
  "wf_node k = (case k of File b m x \<Rightarrow> True | Dir sub \<Rightarrow> wf_entries sub)"

text \<open>
  The roots for which the listed paths are the root-relative ones: each has exactly two
  components, \<^verbatim>\<open>os.path.join\<close> puts a separator after it, and neither tree lies inside
  the other.
\<close>

definition proper_roots :: "SyncFiles \<Rightarrow> bool" where
  "proper_roots self =
     (plain_root (source_path self) \<and> plain_root (replica_path self)
      \<and> length (split_on BS (source_path self)) = 2
      \<and> length (split_on BS (replica_path self)) = 2
      \<and> \<not> prefix (comps (source_path self)) (comps (replica_path self))
      \<and> \<not> prefix (comps (replica_path self)) (comps (source_path self)))"

text \<open>An instance as the launcher makes it: the four lists are empty.\<close>

definition fresh_lists :: "SyncFiles \<Rightarrow> bool" where
  "fresh_lists self =
     (source_folders self = [] \<and> replica_folders self = []
      \<and> source_files self = [] \<and> replica_files self = [])"

text \<open>
  The replica below \<open>R\<close> mirrors the source below \<open>S\<close>: a path exists on one side
  exactly when it exists on the other, and where the source has a file the replica has a file
  with the same digest.
\<close>

definition mirrored :: "'h hasher \<Rightarrow> string list \<Rightarrow> string list \<Rightarrow> node \<Rightarrow> bool" where
  "mirrored H S R t =
     ((\<forall>cs. cs \<noteq> [] \<and> look t (S @ cs) \<noteq> None \<longrightarrow> look t (R @ cs) \<noteq> None)
      \<and> (\<forall>cs. cs \<noteq> [] \<and> look t (R @ cs) \<noteq> None \<longrightarrow> look t (S @ cs) \<noteq> None)
      \<and> (\<forall>f sb sm sk. look t (S @ f) = Some (Some (sb, sm, sk)) \<longrightarrow>
            (\<exists>rb rm rk. look t (R @ f) = Some (Some (rb, rm, rk))
               \<and> stream_digest H rb = stream_digest H sb)))"

section \<open>Example inputs\<close>

definition win_path :: "string list \<Rightarrow> string" where
  "win_path xs = join_with [BS] xs"

text \<open>A streaming hash for the examples: the digest spells the bytes out.\<close>

definition plain_hasher :: "bytes hasher" where
  "plain_hasher = \<lparr>h_new = [], h_update = (\<lambda>s d. s @ d), h_hexdigest = map char_of\<rparr>"

text \<open>Two files with the same bytes, touched at different times and with different permission bits.\<close>

definition touched_fs :: node where
  "touched_fs = Dir [(''s'', Dir [(''f'', File [1, 2] 50 6)]), (''r'', Dir [(''f'', File [1, 2] 70 4)])]"

text \<open>An instance on the roots \<^verbatim>\<open>.\s\<close> and \<^verbatim>\<open>.\r\<close>.\<close>

definition dot_sync :: SyncFiles where
  "dot_sync = init (win_path [''.'', ''s'']) (win_path [''.'', ''r'']) ''log.txt'' ''10'' [] [] [] []"




text \<open>The command line of the examples: the script, the two roots, the log file, the interval.\<close>

definition dot_argv :: "string \<Rightarrow> string list" where
  "dot_argv interval = [''main.py'', win_path [''.'', ''s''], win_path [''.'', ''r''], ''log.txt'', interval]"

text \<open>A source with one directory, an empty replica and the log file.\<close>

definition startup_fs :: node where
  "startup_fs = Dir [(''s'', Dir [(''docs'', Dir [])]), (''r'', Dir []), (''log.txt'', File [] 0 0)]"

text \<open>Both roots are empty; during the first sleep the replica root is removed, during the second it is made again.\<close>

definition idle_fs :: node where
  "idle_fs = Dir [(''s'', Dir []), (''r'', Dir []), (''log.txt'', File [] 0 0)]"

definition vanish_then_restore :: "(node \<Rightarrow> node) list" where
  "vanish_then_restore = [alter [''r''] None, alter [''r''] (Some (Dir [])), (\<lambda>t. t)]"

text \<open>Roots of three components, \<^verbatim>\<open>C:\d\s\<close> and \<^verbatim>\<open>C:\d\r\<close>.\<close>

definition deep_sync :: SyncFiles where
  "deep_sync = init (win_path [''C:'', ''d'', ''s'']) (win_path [''C:'', ''d'', ''r'']) ''log.txt'' ''10'' [] [] [] []"

definition on_drive :: "(string \<times> node) list \<Rightarrow> (string \<times> node) list \<Rightarrow> node" where
  "on_drive src rep = Dir [(''C:'', Dir [(''d'', Dir [(''s'', Dir src), (''r'', Dir rep)])])]"

text \<open>The source holds a directory with a file, the replica is empty.\<close>

definition deep_fs :: node where
  "deep_fs = on_drive [(''a'', Dir [(''f'', File [1] 0 0)])] []"

text \<open>The source holds \<^verbatim>\<open>a\b\c\file.txt\<close>, the replica is empty.\<close>

definition chain_fs :: node where
  "chain_fs = on_drive [(''a'', Dir [(''b'', Dir [(''c'', Dir [(''file.txt'', File [1] 0 0)])])])] []"

text \<open>The source holds a directory \<^verbatim>\<open>a\<close> and a directory \<^verbatim>\<open>s\a\<close>, the replica is empty.\<close>

definition orphan_fs :: node where
  "orphan_fs = on_drive [(''a'', Dir []), (''s'', Dir [(''a'', Dir [])])] []"

text \<open>The source is empty, the replica holds a directory with a file.\<close>

definition stale_fs :: node where
  "stale_fs = on_drive [] [(''old'', Dir [(''f'', File [1] 0 0)])]"

text \<open>The source holds an empty directory where the replica holds a file.\<close>

definition conflict_fs :: node where
  "conflict_fs = Dir [(''s'', Dir [(''x'', Dir [])]), (''r'', Dir [(''x'', File [] 0 0)])]"

text \<open>Two roots with the same last component, \<^verbatim>\<open>C:\a\s\<close> and \<^verbatim>\<open>C:\b\s\<close>.\<close>

definition twin_sync :: SyncFiles where
  "twin_sync = init (win_path [''C:'', ''a'', ''s'']) (win_path [''C:'', ''b'', ''s'']) ''log.txt'' ''10'' [] [] [] []"

definition twin_fs :: "(string \<times> node) list \<Rightarrow> node" where
  "twin_fs rep =
     Dir [(''C:'', Dir [
       (''a'', Dir [(''s'', Dir [(''p'', Dir []), (''s'', Dir [(''p'', Dir []), (''s'', Dir [])])])]),
       (''b'', Dir [(''s'', Dir [(''s'', Dir rep)])])])]"

text \<open>The source holds \<^verbatim>\<open>a\b\c\file.txt\<close> below \<^verbatim>\<open>.\s\<close>, the replica \<^verbatim>\<open>.\r\<close> is empty.\<close>

definition dot_chain_fs :: node where
  "dot_chain_fs =
     Dir [(''s'', Dir [(''a'', Dir [(''b'', Dir [(''c'', Dir [(''file.txt'', File [1] 0 0)])])])]),
          (''r'', Dir [])]"

text \<open>
  Below the roots \<^verbatim>\<open>C:\d\s\<close> and \<^verbatim>\<open>C:\d\r\<close>, a file \<^verbatim>\<open>f\<close> on each side, with
  other bytes.
\<close>

definition differ_fs :: node where
  "differ_fs = on_drive [(''f'', File [1] 0 0)] [(''f'', File [2] 0 0)]"

text \<open>Two such files below the roots \<^verbatim>\<open>.\s\<close> and \<^verbatim>\<open>.\r\<close>.\<close>

definition dot_differ_fs :: node where
  "dot_differ_fs = Dir [(''s'', Dir [(''f'', File [1] 5 6)]), (''r'', Dir [(''f'', File [2] 7 8)])]"

text \<open>
  A command line whose source root \<^verbatim>\<open>r\s\<close> lies inside the replica root \<^verbatim>\<open>.\r\<close>,
  and a tree in which the source holds one directory.
\<close>

definition inside_argv :: "string list" where
  "inside_argv = [''main.py'', win_path [''r'', ''s''], win_path [''.'', ''r''], ''log.txt'', ''10'']"

definition inside_fs :: node where
  "inside_fs = Dir [(''r'', Dir [(''s'', Dir [(''d'', Dir [])])])]"

section \<open>Looking up and altering entries\<close>

lemma lookup_alter_same_None: "cs \<noteq> [] \<Longrightarrow> lookup cs (alter cs None n) = None"
proof (induction cs "None :: node option" n rule: alter.induct)
  case (1 n) then show ?case by simp
next
  case (2 c n) then show ?case by (cases n) (simp_all add: delete_conv')
next
  case (3 c d cs n)
  then show ?case by (cases n) (auto simp: update_conv' split: option.splits)
qed

lemma lookup_alter_same_Some:
  "cs \<noteq> [] \<Longrightarrow> lookup (butlast cs) n = Some (Dir es) \<Longrightarrow> lookup cs (alter cs (Some k) n) = Some k"
proof (induction cs "Some k" n arbitrary: es rule: alter.induct)
  case (1 n) then show ?case by simp
next
  case (2 c n) then show ?case by (cases n) (simp_all add: update_conv')
next
  case (3 c d cs n)
  then show ?case by (cases n) (auto simp: update_conv' split: option.splits)
qed

lemma lookup_alter_other:
  "\<not> prefix cs cs' \<Longrightarrow> \<not> prefix cs' cs \<Longrightarrow> lookup cs' (alter cs v n) = lookup cs' n"
proof (induction cs v n arbitrary: cs' rule: alter.induct)
  case (1 v n) then show ?case by simp
next
  case (2 c v n)
  then show ?case
    by (cases n; cases cs'; cases v) (auto simp: update_conv' delete_conv' split: option.splits)
next
  case (3 c d cs v n)
  show ?case
  proof (cases n)
    case (File b t m) then show ?thesis by simp
  next
    case (Dir es)
    show ?thesis
    proof (cases cs')
      case Nil with 3 show ?thesis by simp
    next
      case (Cons c' cs'')
      show ?thesis
      proof (cases "map_of es c")
        case None with Dir show ?thesis by simp
      next
        case (Some k)
        show ?thesis
        proof (cases "c' = c")
          case True
          with 3(2,3) Cons have "\<not> prefix (d # cs) cs''" "\<not> prefix cs'' (d # cs)" by auto
          from 3(1)[OF Dir Some this] show ?thesis using Dir Cons Some True by (simp add: update_conv')
        next
          case False
          then show ?thesis using Dir Cons Some by (simp add: update_conv')
        qed
      qed
    qed
  qed
qed

lemma lookup_alter_above:
  "strict_prefix cs' cs \<Longrightarrow> lookup cs' n = Some (Dir es) \<Longrightarrow> \<exists>es'. lookup cs' (alter cs v n) = Some (Dir es')"
proof (induction cs v n arbitrary: cs' es rule: alter.induct)
  case (1 v n) then show ?case by simp
next
  case (2 c v n)
  then have "cs' = []" by (cases cs') (auto simp: strict_prefix_def)
  with 2 show ?case by (cases v) auto
next
  case (3 c d cs v n)
  show ?case
  proof (cases cs')
    case Nil with 3 show ?thesis by (auto split: option.splits)
  next
    case (Cons c' cs'')
    with 3(2) have c': "c' = c" and sp: "strict_prefix cs'' (d # cs)" by (auto simp: strict_prefix_def)
    from 3(3) Cons obtain es0 k where n: "n = Dir es0" and k: "map_of es0 c = Some k"
        and lk: "lookup cs'' k = Some (Dir es)"
      using c' by (cases n) (auto split: option.splits)
    from 3(1)[OF n k sp lk] show ?thesis using n k Cons c' by (simp add: update_conv')
  qed
qed

lemma lookup_append:
  "lookup (cs @ ds) n = (case lookup cs n of None \<Rightarrow> None | Some k \<Rightarrow> lookup ds k)"
  by (induction cs n rule: lookup.induct) (auto split: node.splits option.splits)

lemma lookup_below_file:
  assumes "lookup cs n = Some (File b t m)" and "prefix cs cs'" and "lookup cs' n \<noteq> None"
  shows "cs' = cs"
proof -
  from assms(2) obtain ds where ds: "cs' = cs @ ds" by (auto simp: prefix_def)
  with assms(1,3) have "lookup ds (File b t m) \<noteq> None" by (simp add: lookup_append)
  then have "ds = []" by (cases ds) auto
  with ds show ?thesis by simp
qed

lemma lookup_parent_dir:
  assumes "lookup cs n = Some k" and "cs \<noteq> []"
  shows "\<exists>es. lookup (butlast cs) n = Some (Dir es)"
proof -
  from assms(2) have cs: "cs = butlast cs @ [last cs]" by simp
  from assms(1) have "lookup (butlast cs @ [last cs]) n = Some k" using cs by simp
  then show ?thesis
    by (auto simp: lookup_append split: option.splits node.splits)
qed

lemma replace_file:
  assumes rep: "lookup (comps rp) (fs w) = Some (File rb rt rm)"
      and src: "lookup (comps sp) (fs w) = Some (File sb st sm)"
      and ne: "comps sp \<noteq> comps rp"
  shows "then_do (then_do (os_remove rp w) (shutil_copy2 sp rp)) (add_log a rp lp) =
         (Inr (), w\<lparr>fs := alter (comps rp) (Some (File sb st sm)) (alter (comps rp) None (fs w)),
                    events := events w @ [Remove rp, Copy2 sp rp, Log a rp]\<rparr>)"
proof -
  let ?rc = "comps rp" and ?sc = "comps sp"
  let ?t1 = "alter ?rc None (fs w)"
  have np1: "\<not> prefix ?rc ?sc" using lookup_below_file[OF rep, of ?sc] src ne by auto
  have np2: "\<not> prefix ?sc ?rc" using lookup_below_file[OF src, of ?rc] rep ne by auto
  have rne: "?rc \<noteq> []" using np1 by auto
  have l1: "lookup ?rc ?t1 = None" using rne by (rule lookup_alter_same_None)
  have l2: "lookup ?sc ?t1 = Some (File sb st sm)" using lookup_alter_other[OF np1 np2] src by simp
  obtain es where "lookup (butlast ?rc) (fs w) = Some (Dir es)"
    using lookup_parent_dir[OF rep rne] by blast
  moreover have "strict_prefix (butlast ?rc) ?rc" using rne
    by (metis append_butlast_last_id prefix_snoc strict_prefix_def prefix_order.order_refl butlast_snoc not_Cons_self2 append_self_conv)
  ultimately obtain es' where l3: "lookup (butlast ?rc) ?t1 = Some (Dir es')"
    using lookup_alter_above by blast
  have rm: "os_remove rp w = (Inr (), w\<lparr>fs := ?t1, events := events w @ [Remove rp]\<rparr>)"
    using rep by (simp add: os_remove_def Let_def)
  show ?thesis
    using l1 l2 l3 ne
    by (simp add: rm then_do_def shutil_copy2_def is_dir_def path_exists_def add_log_def Let_def)
qed

section \<open>Paths as strings and as components\<close>

lemma split_on_nonempty [simp]: "split_on sep s \<noteq> []"
  by (induction s) (auto split: list.splits)

lemma split_on_none: "sep \<notin> set s \<Longrightarrow> split_on sep s = [s]"
  by (induction s) auto

lemma split_on_append:
  "split_on sep (a @ sep # b) = split_on sep a @ split_on sep b"
  by (induction a) (auto split: list.splits)

lemma split_on_snoc:
  "sep \<notin> set n \<Longrightarrow> split_on sep (p @ sep # n) = split_on sep p @ [n]"
  by (simp add: split_on_append split_on_none)

lemma join_with_snoc:
  "xs \<noteq> [] \<Longrightarrow> join_with sep (xs @ [x]) = join_with sep xs @ sep @ x"
  by (induction sep xs rule: join_with.induct) auto

lemma split_join:
  "xs \<noteq> [] \<Longrightarrow> \<forall>x \<in> set xs. sep \<notin> set x \<Longrightarrow> split_on sep (join_with [sep] xs) = xs"
proof (induction "[sep]" xs rule: join_with.induct)
  case 1 then show ?case by simp
next
  case (2 x) then show ?case by (simp add: split_on_none)
next
  case (3 x y ys)
  then show ?case by (simp add: split_on_append split_on_none)
qed

lemma good_names_dirs_of:
  "wf_entries es \<Longrightarrow> cs \<in> set (dirs_of es) \<Longrightarrow> cs \<noteq> [] \<and> list_all good_name cs"
  by (induction es arbitrary: cs rule: dirs_of.induct) auto

lemma good_names_files_of:
  "wf_entries es \<Longrightarrow> cs \<in> set (files_of es) \<Longrightarrow> cs \<noteq> [] \<and> list_all good_name cs"
  by (induction es arbitrary: cs rule: files_of.induct) auto

lemma below_snoc: "path_join (below r pre) name = below r (pre @ [name])"
  by (simp add: below_def)

lemma list_dirs_entries_below:
  "list_dirs_entries acc (below r pre) es =
     acc @ map (\<lambda>cs. rel_path (below r (pre @ cs))) (dirs_of es)"
proof (induction acc "below r pre" es arbitrary: pre rule: list_dirs_entries.induct)
  case (1 acc) then show ?case by simp
next
  case (2 acc name b m k es) then show ?case by simp
next
  case (3 acc name sub es)
  show ?case
    using 3(1)[of "pre @ [name]"] 3(2)[of pre]
    by (simp add: below_snoc o_def)
qed

lemma list_files_entries_below:
  "list_files_entries acc (below r pre) es =
     acc @ map (\<lambda>cs. rel_path (below r (pre @ cs))) (files_of es)"
proof (induction acc "below r pre" es arbitrary: pre rule: list_files_entries.induct)
  case (1 acc) then show ?case by simp
next
  case (2 acc name b m k es)
  show ?case using 2[of pre] by (simp add: below_snoc)
next
  case (3 acc name sub es)
  show ?case
    using 3(1)[of "pre @ [name]"] 3(2)[of pre]
    by (simp add: below_snoc o_def)
qed

lemma good_name_last:
  assumes "good_name n"
  shows "plain_root (p @ BS # n)"
proof -
  from assms have ne: "n \<noteq> []" by (simp add: good_name_def)
  have "last n \<noteq> BS" "last n \<noteq> CHR ''/''" "last n \<noteq> CHR '':''"
    by (metis assms good_name_def last_in_set)+
  with ne show ?thesis by (simp add: plain_root_def)
qed

lemma below_string:
  "plain_root r \<Longrightarrow> list_all good_name cs \<Longrightarrow> below r cs = r @ concat (map ((#) BS) cs)"
proof (induction cs rule: rev_induct)
  case Nil then show ?case by (simp add: below_def)
next
  case (snoc c cs)
  then have eq: "below r cs = r @ concat (map ((#) BS) cs)" by simp
  have "plain_root (r @ concat (map ((#) BS) cs))"
  proof (cases cs rule: rev_cases)
    case Nil with snoc show ?thesis by simp
  next
    case (snoc ds d)
    with snoc.prems show ?thesis using good_name_last[of d "r @ concat (map ((#) BS) ds)"] by simp
  qed
  then have "path_join (r @ concat (map ((#) BS) cs)) c = r @ concat (map ((#) BS) cs) @ BS # c"
    by (simp add: path_join_def plain_root_def)
  with eq show ?case using below_snoc[of r cs c, symmetric] by simp
qed

lemma split_concat:
  "BS \<notin> set c \<Longrightarrow> \<forall>d \<in> set cs. BS \<notin> set d \<Longrightarrow> split_on BS (c @ concat (map ((#) BS) cs)) = c # cs"
proof (induction cs arbitrary: c)
  case Nil then show ?case by (simp add: split_on_none)
next
  case (Cons d ds)
  then show ?case by (simp add: split_on_append split_on_none)
qed

lemma split_below:
  assumes "plain_root r" "list_all good_name cs"
  shows "split_on BS (below r cs) = split_on BS r @ cs"
proof (cases cs)
  case Nil then show ?thesis by (simp add: below_def)
next
  case (Cons c ds)
  with assms have g: "BS \<notin> set c" "\<forall>d \<in> set ds. BS \<notin> set d"
    by (auto simp: good_name_def list_all_iff)
  have "below r cs = r @ BS # (c @ concat (map ((#) BS) ds))"
    using below_string[OF assms] Cons by simp
  then show ?thesis using split_concat[OF g] Cons by (simp add: split_on_append)
qed

lemma rel_path_below:
  assumes "plain_root r" "list_all good_name cs"
  shows "rel_path (below r cs) = join_with [BS] (drop 2 (split_on BS r @ cs))"
  by (simp add: rel_path_def split_below[OF assms])

lemma join_string:
  "cs \<noteq> [] \<Longrightarrow> [BS] @ join_with [BS] cs = concat (map ((#) BS) cs)"
  by (induction "[BS]" cs rule: join_with.induct) auto

lemma path_join_rel:
  assumes "plain_root r" "list_all good_name cs" "cs \<noteq> []"
  shows "path_join r (join_with [BS] cs) = below r cs"
proof -
  have "path_join r (join_with [BS] cs) = r @ [BS] @ join_with [BS] cs"
    using assms(1) by (simp add: path_join_def plain_root_def)
  then show ?thesis using join_string[OF assms(3)] below_string[OF assms(1,2)] by simp
qed

lemma comps_below:
  assumes "plain_root r" "list_all good_name cs"
  shows "comps (below r cs) = comps r @ cs"
proof -
  have "filter (\<lambda>c. c \<noteq> [] \<and> c \<noteq> ''.'') cs = cs"
    using assms(2) by (induction cs) (auto simp: good_name_def)
  then show ?thesis by (simp add: comps_def split_below[OF assms])
qed

lemma list_dirs_root_relative:
  assumes "plain_root r" "length (split_on BS r) = 2" "wf_entries es"
  shows "list_dirs_entries acc r es = acc @ map (join_with [BS]) (dirs_of es)"
proof -
  have "rel_path (below r cs) = join_with [BS] cs" if "cs \<in> set (dirs_of es)" for cs
    using rel_path_below[OF assms(1), of cs] good_names_dirs_of[OF assms(3) that] assms(2) by simp
  then show ?thesis using list_dirs_entries_below[of acc r "[]" es] by (simp add: below_def)
qed

lemma list_files_root_relative:
  assumes "plain_root r" "length (split_on BS r) = 2" "wf_entries es"
  shows "list_files_entries acc r es = acc @ map (join_with [BS]) (files_of es)"
proof -
  have "rel_path (below r cs) = join_with [BS] cs" if "cs \<in> set (files_of es)" for cs
    using rel_path_below[OF assms(1), of cs] good_names_files_of[OF assms(3) that] assms(2) by simp
  then show ?thesis using list_files_entries_below[of acc r "[]" es] by (simp add: below_def)
qed

lemma parents_first_mono:
  "parents_first A xs \<Longrightarrow> A \<subseteq> B \<Longrightarrow> parents_first B xs"
proof (induction xs arbitrary: A B)
  case Nil then show ?case by simp
next
  case (Cons y ys)
  from Cons.prems have "parents_first (insert y A) ys" "insert y A \<subseteq> insert y B" by auto
  from Cons.IH[OF this] Cons.prems show ?case by auto
qed

lemma parents_first_append:
  "parents_first A (xs @ ys) \<longleftrightarrow> parents_first A xs \<and> parents_first (set xs \<union> A) ys"
proof (induction xs arbitrary: A)
  case Nil then show ?case by simp
next
  case (Cons x xs)
  have "set xs \<union> insert x A = set (x # xs) \<union> A" by auto
  with Cons[of "insert x A"] show ?case by auto
qed

lemma parents_first_map:
  assumes "parents_first A xs" "\<forall>x \<in> set xs. x \<noteq> []"
  shows "parents_first (insert [n] ((#) n ` A)) (map ((#) n) xs)"
  using assms
proof (induction xs arbitrary: A)
  case Nil then show ?case by simp
next
  case (Cons y ys)
  from Cons.prems have y: "y \<noteq> []" and p: "length y \<le> 1 \<or> butlast y \<in> A"
    and rest: "parents_first (insert y A) ys" "\<forall>x \<in> set ys. x \<noteq> []" by auto
  have 1: "length (n # y) \<le> 1 \<or> butlast (n # y) \<in> insert [n] ((#) n ` A)"
  proof (cases "length y \<le> 1")
    case True
    with y have "butlast y = []" by (cases y) auto
    with y show ?thesis by simp
  next
    case False
    with p y show ?thesis by auto
  qed
  have "insert [n] ((#) n ` insert y A) = insert (n # y) (insert [n] ((#) n ` A))" by auto
  with Cons.IH[OF rest] 1 show ?case by simp
qed

lemma dirs_of_nonempty: "cs \<in> set (dirs_of es) \<Longrightarrow> cs \<noteq> []"
  by (induction es arbitrary: cs rule: dirs_of.induct) auto

lemma dirs_of_parents_first: "parents_first {} (dirs_of es)"
proof (induction es rule: dirs_of.induct)
  case 1 then show ?case by simp
next
  case (2 name b m k es) then show ?case by simp
next
  case (3 name sub es)
  have "parents_first (insert [name] ((#) name ` {})) (map ((#) name) (dirs_of sub))"
    using 3(1) dirs_of_nonempty by (intro parents_first_map) auto
  moreover have "parents_first (set (map ((#) name) (dirs_of sub)) \<union> {[name]}) (dirs_of es)"
    using 3(2) by (rule parents_first_mono) simp
  ultimately show ?case by (simp add: parents_first_append)
qed

lemma parents_first_split:
  "parents_first A (xs @ y # ys) \<Longrightarrow> 1 < length y \<Longrightarrow> butlast y \<in> set xs \<union> A"
  by (auto simp: parents_first_append)

lemma look_alter_above:
  "strict_prefix ds cs \<Longrightarrow> look (alter cs v t) ds = look t ds"
proof (induction cs v t arbitrary: ds rule: alter.induct)
  case (1 v n) then show ?case by simp
next
  case (2 c v n)
  then have "ds = []" by (cases ds) (auto simp: strict_prefix_def)
  then show ?case by (cases n; cases v) (simp_all add: look_def)
next
  case (3 c d cs v n)
  show ?case
  proof (cases n)
    case (File b m k) then show ?thesis by (simp add: look_def)
  next
    case (Dir es)
    show ?thesis
    proof (cases "map_of es c")
      case None with Dir show ?thesis by (simp add: look_def)
    next
      case (Some k)
      show ?thesis
      proof (cases ds)
        case Nil with Dir Some show ?thesis by (simp add: look_def)
      next
        case (Cons c' ds')
        with 3(2) have c': "c' = c" and sp: "strict_prefix ds' (d # cs)" by (auto simp: strict_prefix_def)
        from 3(1)[OF Dir Some sp] show ?thesis using Dir Some Cons c'
          by (simp add: look_def update_conv')
      qed
    qed
  qed
qed

lemma look_alter_other:
  assumes "\<not> prefix cs ds"
  shows "look (alter cs v t) ds = look t ds"
proof (cases "prefix ds cs")
  case True
  with assms have "strict_prefix ds cs" by (auto simp: strict_prefix_def)
  then show ?thesis by (rule look_alter_above)
next
  case False
  with assms show ?thesis by (simp add: look_def lookup_alter_other)
qed

lemma look_alter_delete:
  assumes "cs \<noteq> []" "prefix cs ds"
  shows "look (alter cs None t) ds = None"
proof -
  from assms(2) obtain es where "ds = cs @ es" by (auto simp: prefix_def)
  then show ?thesis using lookup_alter_same_None[OF assms(1), of t]
    by (simp add: look_def lookup_append)
qed

lemma look_parent:
  assumes "look t cs \<noteq> None" "cs \<noteq> []"
  shows "look t (butlast cs) = Some None"
proof -
  from assms(1) obtain k where "lookup cs t = Some k" by (auto simp: look_def)
  from lookup_parent_dir[OF this assms(2)] show ?thesis by (auto simp: look_def)
qed

lemma look_prefix:
  assumes "look t (cs @ ds) \<noteq> None"
  shows "look t cs \<noteq> None"
  using assms by (auto simp: look_def lookup_append split: option.splits)

lemma look_below_file:
  assumes "look t cs = Some (Some f)" "ds \<noteq> []"
  shows "look t (cs @ ds) = None"
proof -
  from assms(1) obtain b m k where "lookup cs t = Some (File b m k)"
    by (auto simp: look_def) (metis kind.elims option.distinct(1))
  then show ?thesis using assms(2) by (cases ds) (simp_all add: look_def lookup_append)
qed

lemma look_alter_insert:
  assumes "cs \<noteq> []" "look t (butlast cs) = Some None"
  shows "look (alter cs (Some k) t) (cs @ es) = map_option kind (lookup es k)"
proof -
  from assms(2) obtain xs where "lookup (butlast cs) t = Some (Dir xs)"
    by (auto simp: look_def) (metis kind.elims option.distinct(1))
  from lookup_alter_same_Some[OF assms(1) this] show ?thesis
    by (simp add: look_def lookup_append)
qed

lemma path_exists_look: "path_exists t p \<longleftrightarrow> look t (comps p) \<noteq> None"
  by (simp add: path_exists_def look_def)

section \<open>The steps of a cycle on proper roots\<close>

lemma for_each_rule:
  assumes init: "I [] w"
      and step: "\<And>ys x zs w. xs = ys @ x # zs \<Longrightarrow> I ys w \<Longrightarrow>
                   (case body x w of (Inl e, w') \<Rightarrow> E e w' | (Inr u, w') \<Rightarrow> I (ys @ [x]) w')"
  shows "case for_each body xs w of (Inl e, w') \<Rightarrow> E e w' | (Inr u, w') \<Rightarrow> I xs w'"
proof -
  have "case for_each body zs w of (Inl e, w') \<Rightarrow> E e w' | (Inr u, w') \<Rightarrow> I xs w'"
    if "xs = ys @ zs" "I ys w" for ys zs w
    using that
  proof (induction zs arbitrary: ys w)
    case Nil then show ?case by simp
  next
    case (Cons x zs)
    from step[OF Cons.prems] show ?case
    proof (cases "body x w")
      case (Pair a w')
      show ?thesis
      proof (cases a)
        case (Inl e)
        with Pair step[OF Cons.prems] show ?thesis by simp
      next
        case (Inr u)
        with Pair step[OF Cons.prems] have "I (ys @ [x]) w'" by simp
        moreover have "xs = (ys @ [x]) @ zs" using Cons.prems by simp
        ultimately show ?thesis using Cons.IH Pair Inr by simp
      qed
    qed
  qed
  from this[of "[]" xs w] init show ?thesis by simp
qed

lemma wf_entries_iff:
  "wf_entries es \<longleftrightarrow> distinct (map fst es) \<and> (\<forall>(n, k) \<in> set es. good_name n \<and> wf_node k)"
  by (induction es rule: wf_entries.induct) (auto simp: wf_node_def)

lemma look_Dir_Cons:
  "look (Dir es) (c # cs) = (case map_of es c of None \<Rightarrow> None | Some k \<Rightarrow> look k cs)"
  by (simp add: look_def split: option.splits)

lemma dirs_of_complete:
  "look (Dir es) cs = Some None \<Longrightarrow> cs \<noteq> [] \<Longrightarrow> cs \<in> set (dirs_of es)"
proof (induction es arbitrary: cs rule: dirs_of.induct)
  case 1 then show ?case by (cases cs) (simp_all add: look_Dir_Cons)
next
  case (2 name b m k es)
  from "2.prems" obtain c cs' where cs: "cs = c # cs'" by (cases cs) auto
  show ?case
  proof (cases "c = name")
    case True
    with "2.prems" cs show ?thesis by (cases cs') (simp_all add: look_Dir_Cons look_def)
  next
    case False
    with 2 cs show ?thesis by (simp add: look_Dir_Cons)
  qed
next
  case (3 name sub es)
  from "3.prems" obtain c cs' where cs: "cs = c # cs'" by (cases cs) auto
  show ?case
  proof (cases "c = name")
    case True
    show ?thesis
    proof (cases cs')
      case Nil with cs True show ?thesis by simp
    next
      case (Cons d ds)
      with 3(3) cs True have "look (Dir sub) cs' = Some None" by (simp add: look_Dir_Cons)
      with 3(1)[of cs'] Cons have "cs' \<in> set (dirs_of sub)" by simp
      with cs True show ?thesis by simp
    qed
  next
    case False
    with 3(2)[of cs] 3(3,4) cs show ?thesis by (simp add: look_Dir_Cons)
  qed
qed

lemma files_of_complete:
  "look (Dir es) cs = Some (Some f) \<Longrightarrow> cs \<in> set (files_of es)"
proof (induction es arbitrary: cs rule: files_of.induct)
  case 1 then show ?case by (cases cs) (simp_all add: look_Dir_Cons look_def)
next
  case (2 name b m k es)
  from "2.prems" obtain c cs' where cs: "cs = c # cs'" by (cases cs) (auto simp: look_def)
  show ?case
  proof (cases "c = name")
    case True
    with "2.prems" cs show ?thesis by (cases cs') (simp_all add: look_Dir_Cons look_def)
  next
    case False
    with 2 cs show ?thesis by (simp add: look_Dir_Cons)
  qed
next
  case (3 name sub es)
  from "3.prems" obtain c cs' where cs: "cs = c # cs'" by (cases cs) (auto simp: look_def)
  show ?case
  proof (cases "c = name")
    case True
    with 3(3) cs have "look (Dir sub) cs' = Some (Some f)" by (simp add: look_Dir_Cons)
    with 3(1)[of cs'] have "cs' \<in> set (files_of sub)" by simp
    with cs True show ?thesis by simp
  next
    case False
    with 3(2)[of cs] 3(3) cs show ?thesis by (simp add: look_Dir_Cons)
  qed
qed

lemma files_of_sound:
  "wf_entries es \<Longrightarrow> cs \<in> set (files_of es) \<Longrightarrow> \<exists>b m k. look (Dir es) cs = Some (Some (b, m, k))"
proof (induction es arbitrary: cs rule: files_of.induct)
  case 1 then show ?case by simp
next
  case (2 name b m k es)
  show ?case
  proof (cases "cs = [name]")
    case True then show ?thesis by (simp add: look_Dir_Cons look_def)
  next
    case False
    with 2 have in_es: "cs \<in> set (files_of es)" and wf: "wf_entries es" and nn: "name \<notin> fst ` set es" by auto
    from 2(1)[OF wf in_es] obtain b' m' k' where f: "look (Dir es) cs = Some (Some (b', m', k'))" by blast
    then obtain c cs' where cs: "cs = c # cs'" by (cases cs) (auto simp: look_def)
    with f have "map_of es c \<noteq> None" by (auto simp: look_Dir_Cons split: option.splits)
    then have "c \<in> fst ` set es" by (simp add: map_of_eq_None_iff)
    with nn have "c \<noteq> name" by auto
    with f cs show ?thesis by (simp add: look_Dir_Cons)
  qed
next
  case (3 name sub es)
  from 3(3) have wfs: "wf_entries sub" and wf: "wf_entries es" and nn: "name \<notin> fst ` set es" by auto
  from 3(4) consider (a) cs' where "cs = name # cs'" "cs' \<in> set (files_of sub)" | (b) "cs \<in> set (files_of es)"
    by auto
  then show ?case
  proof cases
    case a
    from 3(1)[OF wfs a(2)] obtain b' m' k' where "look (Dir sub) cs' = Some (Some (b', m', k'))" by blast
    with a(1) show ?thesis by (simp add: look_Dir_Cons)
  next
    case b
    from 3(2)[OF wf b] obtain b' m' k' where f: "look (Dir es) cs = Some (Some (b', m', k'))" by blast
    then obtain c cs' where cs: "cs = c # cs'" by (cases cs) (auto simp: look_def)
    with f have "map_of es c \<noteq> None" by (auto simp: look_Dir_Cons split: option.splits)
    then have "c \<in> fst ` set es" by (simp add: map_of_eq_None_iff)
    with nn have "c \<noteq> name" by auto
    with f cs show ?thesis by (simp add: look_Dir_Cons)
  qed
qed

lemma wf_entries_map_of:
  "wf_entries es \<longleftrightarrow>
     distinct (map fst es) \<and> (\<forall>n k. map_of es n = Some k \<longrightarrow> good_name n \<and> wf_node k)"
  by (auto simp: wf_entries_iff dest: map_of_SomeD)

lemma wf_node_Dir [simp]: "wf_node (Dir es) = wf_entries es"
  by (simp add: wf_node_def)

lemma wf_node_File [simp]: "wf_node (File b m k)"
  by (simp add: wf_node_def)

lemma wf_alter:
  assumes "wf_node t" "list_all good_name cs" "case v of None \<Rightarrow> True | Some x \<Rightarrow> wf_node x"
  shows "wf_node (alter cs v t)"
  using assms
proof (induction cs v t rule: alter.induct)
  case (1 v n) then show ?case by simp
next
  case (2 c v n)
  show ?case
  proof (cases n)
    case (File b m k) then show ?thesis by simp
  next
    case (Dir es)
    with 2 have wf: "wf_entries es" and g: "good_name c" by simp_all
    show ?thesis
    proof (cases v)
      case None
      with Dir wf show ?thesis
        by (auto simp: wf_entries_map_of distinct_delete delete_conv' split: if_splits)
    next
      case (Some x)
      with 2 have "wf_node x" by simp
      with Dir wf g Some show ?thesis
        by (auto simp: wf_entries_map_of distinct_update update_conv' split: if_splits)
    qed
  qed
next
  case (3 c d cs v n)
  show ?case
  proof (cases n)
    case (File b m k) then show ?thesis by simp
  next
    case (Dir es)
    with 3 have wf: "wf_entries es" and g: "good_name c" "list_all good_name (d # cs)" by simp_all
    show ?thesis
    proof (cases "map_of es c")
      case None with Dir wf show ?thesis by simp
    next
      case (Some k)
      with wf have "wf_node k" by (auto simp: wf_entries_map_of)
      from 3(1)[OF Dir Some this g(2) 3(4)] have "wf_node (alter (d # cs) v k)" .
      with Dir wf g Some show ?thesis
        by (auto simp: wf_entries_map_of distinct_update update_conv' split: if_splits)
    qed
  qed
qed

lemma lookup_alter_below:
  "cs \<noteq> [] \<Longrightarrow> lookup rs (alter (rs @ cs) v t) = map_option (alter cs v) (lookup rs t)"
proof (induction rs arbitrary: t)
  case Nil then show ?case by simp
next
  case (Cons r rs)
  then obtain d ds where e: "rs @ cs = d # ds" by (cases "rs @ cs") auto
  show ?case
  proof (cases t)
    case (File b m k) then show ?thesis by (simp add: e)
  next
    case (Dir es)
    show ?thesis
    proof (cases "map_of es r")
      case None with Dir show ?thesis by (simp add: e)
    next
      case (Some k)
      from Cons.IH[OF Cons.prems, of k] show ?thesis using Dir Some
        by (simp add: e[symmetric]) (simp add: e update_conv')
    qed
  qed
qed

lemma wf_lookup:
  "wf_node t \<Longrightarrow> lookup cs t = Some k \<Longrightarrow> wf_node k"
proof (induction cs t rule: lookup.induct)
  case (1 n) then show ?case by simp
next
  case (2 c cs n)
  then show ?case
    by (cases n) (auto simp: wf_entries_map_of split: option.splits)
qed

lemma look_below_None: "look t cs = None \<Longrightarrow> look t (cs @ es) = None"
  by (simp add: look_def lookup_append)

lemma look_mkdir:
  assumes "look t cs = None" "look t (butlast cs) = Some None" "cs \<noteq> []"
  shows "look (alter cs (Some (Dir [])) t) ds = (if ds = cs then Some None else look t ds)"
proof (cases "prefix cs ds")
  case False
  then show ?thesis by (auto simp: look_alter_other)
next
  case True
  then obtain es where ds: "ds = cs @ es" by (auto simp: prefix_def)
  have new: "look (alter cs (Some (Dir [])) t) ds = map_option kind (lookup es (Dir []))"
    unfolding ds by (rule look_alter_insert[OF assms(3,2)])
  show ?thesis
  proof (cases es)
    case Nil with new ds show ?thesis by simp
  next
    case (Cons e es')
    have "look t ds = None" using look_below_None[OF assms(1)] ds by simp
    with new Cons ds show ?thesis by simp
  qed
qed

lemma look_write:
  assumes "look t cs \<noteq> Some None" "look t (butlast cs) = Some None" "cs \<noteq> []"
  shows "look (alter cs (Some (File b m k)) t) ds = (if ds = cs then Some (Some (b, m, k)) else look t ds)"
proof (cases "prefix cs ds")
  case False
  then show ?thesis by (auto simp: look_alter_other)
next
  case True
  then obtain es where ds: "ds = cs @ es" by (auto simp: prefix_def)
  have new: "look (alter cs (Some (File b m k)) t) ds = map_option kind (lookup es (File b m k))"
    unfolding ds by (rule look_alter_insert[OF assms(3,2)])
  show ?thesis
  proof (cases es)
    case Nil with new ds show ?thesis by simp
  next
    case (Cons e es')
    have "look t ds = None"
    proof (cases "look t cs")
      case None
      then show ?thesis using look_below_None ds by simp
    next
      case (Some a)
      with assms(1) obtain f where "look t cs = Some (Some f)" by (cases a) auto
      then show ?thesis using look_below_file[of t cs f es] Cons ds by simp
    qed
    with new Cons ds show ?thesis by simp
  qed
qed

lemma look_remove:
  assumes "cs \<noteq> []"
  shows "look (alter cs None t) ds = (if prefix cs ds then None else look t ds)"
  using assms by (simp add: look_alter_delete look_alter_other)

lemma root_paths:
  assumes "plain_root r" "list_all good_name cs" "cs \<noteq> []"
  shows "comps (path_join r (join_with [BS] cs)) = comps r @ cs"
  by (simp add: path_join_rel[OF assms] comps_below[OF assms(1,2)])

lemma for_each_map: "for_each body (map f xs) w = for_each (\<lambda>x. body (f x)) xs w"
  by (induction xs arbitrary: w) (auto split: prod.splits sum.splits)

lemma incomparable_below:
  assumes "\<not> prefix R S" "\<not> prefix S R"
  shows "\<not> prefix (R @ cs) (S @ ds)"
proof
  assume "prefix (R @ cs) (S @ ds)"
  then have "prefix R (S @ ds)" by (meson append_prefixD)
  moreover have "prefix S (S @ ds)" by simp
  ultimately show False using assms by (meson prefix_same_cases)
qed

lemma create_dir_at:
  assumes "plain_root (replica_path self)" "plain_root (source_path self)" "list_all good_name cs" "cs \<noteq> []"
  shows "create_dir self (join_with [BS] cs) w =
     (if look (fs w) (comps (replica_path self) @ cs) = None
         \<and> look (fs w) (comps (source_path self) @ cs) \<noteq> None then
        (case look (fs w) (comps (replica_path self) @ butlast cs) of
           None \<Rightarrow> (Inl FileNotFoundError, w)
         | Some (Some f) \<Rightarrow> (Inl NotADirectoryError, w)
         | Some None \<Rightarrow>
             (Inr (), w\<lparr>fs := alter (comps (replica_path self) @ cs) (Some (Dir [])) (fs w),
                        events := events w @
                          [Mkdir (path_join (replica_path self) (join_with [BS] cs)),
                           Log ''CREATED'' (path_join (replica_path self) (join_with [BS] cs))]\<rparr>))
      else (Inr (), w))"
proof -
  have r: "comps (path_join (replica_path self) (join_with [BS] cs)) = comps (replica_path self) @ cs"
    using assms by (intro root_paths)
  have s: "comps (path_join (source_path self) (join_with [BS] cs)) = comps (source_path self) @ cs"
    using assms by (intro root_paths)
  have b: "butlast (comps (replica_path self) @ cs) = comps (replica_path self) @ butlast cs"
    using assms(4) by (simp add: butlast_append)
  show ?thesis
    by (auto simp: create_dir_def path_exists_look r s b os_mkdir_def Let_def then_do_def add_log_def look_def
             split: option.splits node.splits)
qed

lemma create_phase:
  fixes self :: SyncFiles and D :: "string list list"
  defines "S \<equiv> comps (source_path self)" and "R \<equiv> comps (replica_path self)"
  assumes pr: "proper_roots self"
      and good: "\<forall>cs \<in> set D. cs \<noteq> [] \<and> list_all good_name cs"
      and pf: "parents_first {} D"
      and rdir: "look (fs w) R = Some None"
  shows "case for_each (create_dir self) (map (join_with [BS]) D) w of
           (Inl e, w') \<Rightarrow> e \<noteq> FileNotFoundError
         | (Inr u, w') \<Rightarrow>
             (\<forall>ds. look (fs w') (S @ ds) = look (fs w) (S @ ds))
           \<and> (\<forall>cs \<in> set D. look (fs w) (S @ cs) \<noteq> None \<longrightarrow> look (fs w') (R @ cs) \<noteq> None)
           \<and> (\<forall>ds. look (fs w) (R @ ds) \<noteq> None \<longrightarrow> look (fs w') (R @ ds) = look (fs w) (R @ ds))
           \<and> (\<forall>ds. look (fs w') (R @ ds) \<noteq> None \<longrightarrow>
                 look (fs w) (R @ ds) \<noteq> None
               \<or> look (fs w') (R @ ds) = Some None \<and> look (fs w) (S @ ds) \<noteq> None)
           \<and> (wf_node (the (lookup R (fs w))) \<longrightarrow> wf_node (the (lookup R (fs w'))))
           \<and> lookup S (fs w') = lookup S (fs w)"
proof -
  let ?t0 = "fs w"
  define I where "I = (\<lambda>(ys::string list list) (w'::world).
             (\<forall>ds. look (fs w') (S @ ds) = look ?t0 (S @ ds))
           \<and> (\<forall>cs \<in> set ys. look ?t0 (S @ cs) \<noteq> None \<longrightarrow> look (fs w') (R @ cs) \<noteq> None)
           \<and> (\<forall>ds. look ?t0 (R @ ds) \<noteq> None \<longrightarrow> look (fs w') (R @ ds) = look ?t0 (R @ ds))
           \<and> (\<forall>ds. look (fs w') (R @ ds) \<noteq> None \<longrightarrow>
                 look ?t0 (R @ ds) \<noteq> None
               \<or> look (fs w') (R @ ds) = Some None \<and> look ?t0 (S @ ds) \<noteq> None)
           \<and> (wf_node (the (lookup R ?t0)) \<longrightarrow> wf_node (the (lookup R (fs w'))))
           \<and> lookup S (fs w') = lookup S ?t0)"
  from pr have plain: "plain_root (replica_path self)" "plain_root (source_path self)"
    and inc: "\<not> prefix R S" "\<not> prefix S R"
    by (simp_all add: proper_roots_def S_def R_def)
  have init: "I [] w" by (simp add: I_def)
  have step: "case create_dir self (join_with [BS] cs) v of
                (Inl e, w') \<Rightarrow> e \<noteq> FileNotFoundError
              | (Inr u, w') \<Rightarrow> I (ys @ [cs]) w'"
    if D: "D = ys @ cs # zs" and I: "I ys v" for ys cs zs v
  proof -
    from D good have g: "cs \<noteq> []" "list_all good_name cs" by auto
    from I have i1: "\<And>ds. look (fs v) (S @ ds) = look ?t0 (S @ ds)"
      and i2: "\<And>cs. cs \<in> set ys \<Longrightarrow> look ?t0 (S @ cs) \<noteq> None \<Longrightarrow> look (fs v) (R @ cs) \<noteq> None"
      and i3: "\<And>ds. look ?t0 (R @ ds) \<noteq> None \<Longrightarrow> look (fs v) (R @ ds) = look ?t0 (R @ ds)"
      and i4: "\<And>ds. look (fs v) (R @ ds) \<noteq> None \<Longrightarrow>
                 look ?t0 (R @ ds) \<noteq> None
               \<or> look (fs v) (R @ ds) = Some None \<and> look ?t0 (S @ ds) \<noteq> None"
      and i5: "wf_node (the (lookup R ?t0)) \<Longrightarrow> wf_node (the (lookup R (fs v)))"
      and i6: "lookup S (fs v) = lookup S ?t0"
      unfolding I_def by blast+
    note eq = create_dir_at[OF plain g(2,1), of v, folded S_def R_def]
    show ?thesis
    proof (cases "look (fs v) (R @ cs) = None \<and> look (fs v) (S @ cs) \<noteq> None")
      case False
      then have "create_dir self (join_with [BS] cs) v = (Inr (), v)" by (auto simp: eq)
      moreover have "I (ys @ [cs]) v"
        unfolding I_def using i1 i2 i3 i4 i5 i6 False by auto
      ultimately show ?thesis by simp
    next
      case True
      have src: "look (fs v) (S @ butlast cs) = Some None"
        using look_parent[of "fs v" "S @ cs"] True g(1) by (simp add: butlast_append)
      have rv: "look (fs v) R = Some None" using i3[of "[]"] rdir by simp
      have par: "look (fs v) (R @ butlast cs) \<noteq> None"
      proof (cases "butlast cs = []")
        case True
        with rv show ?thesis by simp
      next
        case False
        then have "1 < length cs" by (cases cs) auto
        with pf D have "butlast cs \<in> set ys" using parents_first_split[of "{}" ys cs zs] by simp
        moreover have "look ?t0 (S @ butlast cs) \<noteq> None" using src i1 by simp
        ultimately show ?thesis using i2 by blast
      qed
      show ?thesis
      proof (cases "look (fs v) (R @ butlast cs)")
        case None with par show ?thesis by simp
      next
        case (Some a)
        show ?thesis
        proof (cases a)
          case (Some f)
          with \<open>look (fs v) (R @ butlast cs) = Some a\<close> True show ?thesis by (auto simp: eq)
        next
          case None
          let ?t' = "alter (R @ cs) (Some (Dir [])) (fs v)"
          let ?v' = "v\<lparr>fs := ?t', events := events v @
                          [Mkdir (path_join (replica_path self) (join_with [BS] cs)),
                           Log ''CREATED'' (path_join (replica_path self) (join_with [BS] cs))]\<rparr>"
          from None \<open>look (fs v) (R @ butlast cs) = Some a\<close> True
          have res: "create_dir self (join_with [BS] cs) v = (Inr (), ?v')" by (auto simp: eq)
          have pd: "look (fs v) (butlast (R @ cs)) = Some None"
            using None \<open>look (fs v) (R @ butlast cs) = Some a\<close> g(1) by (simp add: butlast_append)
          have lk: "look ?t' (R @ ds) = (if ds = cs then Some None else look (fs v) (R @ ds))" for ds
            using look_mkdir[of "fs v" "R @ cs" "R @ ds"] True pd g(1) by simp
          have s_same: "look ?t' (S @ ds) = look (fs v) (S @ ds)" for ds
            using incomparable_below[OF inc, of cs ds] by (simp add: look_alter_other)
          have lr: "lookup R ?t' = map_option (alter cs (Some (Dir []))) (lookup R (fs v))"
            using g(1) by (rule lookup_alter_below)
          from rv obtain k where k: "lookup R (fs v) = Some k" by (auto simp: look_def)
          have wf': "wf_node (the (lookup R ?t'))" if "wf_node (the (lookup R ?t0))"
            using i5[OF that] lr k g(2) by (auto intro!: wf_alter)
          have n1: "\<forall>ds. look (fs ?v') (S @ ds) = look ?t0 (S @ ds)" using s_same i1 by simp
          have n2: "\<forall>c \<in> set (ys @ [cs]). look ?t0 (S @ c) \<noteq> None \<longrightarrow> look (fs ?v') (R @ c) \<noteq> None"
            using i2 lk by auto
          have n3: "\<forall>ds. look ?t0 (R @ ds) \<noteq> None \<longrightarrow> look (fs ?v') (R @ ds) = look ?t0 (R @ ds)"
            using i3 lk True by auto
          have n4: "\<forall>ds. look (fs ?v') (R @ ds) \<noteq> None \<longrightarrow>
                 look ?t0 (R @ ds) \<noteq> None
               \<or> look (fs ?v') (R @ ds) = Some None \<and> look ?t0 (S @ ds) \<noteq> None"
            using i4 lk True i1 by auto
          have n5: "wf_node (the (lookup R ?t0)) \<longrightarrow> wf_node (the (lookup R (fs ?v')))"
            using wf' by simp
          have n6: "lookup S (fs ?v') = lookup S ?t0"
            using i6 incomparable_below[OF inc, of cs "[]"] incomparable_below[OF inc(2,1), of "[]" cs]
            by (simp add: lookup_alter_other)
          have "I (ys @ [cs]) ?v'" unfolding I_def using n1 n2 n3 n4 n5 n6 by blast
          with res show ?thesis by simp
        qed
      qed
    qed
  qed
  have "case for_each (\<lambda>cs. create_dir self (join_with [BS] cs)) D w of
           (Inl e, w') \<Rightarrow> e \<noteq> FileNotFoundError
         | (Inr u, w') \<Rightarrow> I D w'"
  proof (rule for_each_rule[where I = I and E = "\<lambda>e w'. e \<noteq> FileNotFoundError", OF init])
    fix ys x zs v
    assume "D = ys @ x # zs" "I ys v"
    then show "case create_dir self (join_with [BS] x) v of
                 (Inl e, w') \<Rightarrow> e \<noteq> FileNotFoundError
               | (Inr u, w') \<Rightarrow> I (ys @ [x]) w'"
      by (rule step)
  qed
  then show ?thesis unfolding for_each_map I_def .
qed

lemma kind_None: "kind k = None \<longleftrightarrow> (\<exists>es. k = Dir es)"
  by (cases k) simp_all

lemma kind_Some: "kind k = Some (b, m, x) \<longleftrightarrow> k = File b m x"
  by (cases k) simp_all

lemma look_lookup_dir: "look t cs = Some None \<longleftrightarrow> (\<exists>es. lookup cs t = Some (Dir es))"
  by (cases "lookup cs t") (simp_all add: look_def kind_None)

lemma look_lookup_file: "look t cs = Some (Some (b, m, k)) \<longleftrightarrow> lookup cs t = Some (File b m k)"
  by (cases "lookup cs t") (simp_all add: look_def kind_Some)

lemma look_cases:
  obtains (none) "look t cs = None" | (dir) "look t cs = Some None"
        | (reg) b m k where "look t cs = Some (Some (b, m, k))"
proof (cases "look t cs")
  case None then show ?thesis by (rule none)
next
  case (Some a)
  show ?thesis
  proof (cases a)
    case None with Some show ?thesis by (intro dir) simp
  next
    case (Some f)
    obtain b m k where "f = (b, m, k)" by (cases f)
    with Some \<open>look t cs = Some a\<close> show ?thesis by (intro reg) simp
  qed
qed

lemma delete_dir_effect:
  fixes self :: SyncFiles
  defines "S \<equiv> comps (source_path self)" and "R \<equiv> comps (replica_path self)"
  assumes pr: "proper_roots self" and g: "cs \<noteq> []" "list_all good_name cs"
      and ok: "delete_dir self (join_with [BS] cs) w = (Inr u, w')"
  shows "(\<forall>ds. look (fs w') (S @ ds) = look (fs w) (S @ ds))
       \<and> (\<forall>ds. look (fs w') (R @ ds) =
              (if prefix cs ds \<and> look (fs w) (S @ cs) = None then None else look (fs w) (R @ ds)))
       \<and> lookup R (fs w') = (if look (fs w) (R @ cs) \<noteq> None \<and> look (fs w) (S @ cs) = None
             then map_option (alter cs None) (lookup R (fs w)) else lookup R (fs w))
       \<and> lookup S (fs w') = lookup S (fs w)"
proof -
  from pr have plain: "plain_root (replica_path self)" "plain_root (source_path self)"
    and inc: "\<not> prefix R S" "\<not> prefix S R"
    by (simp_all add: proper_roots_def S_def R_def)
  have r: "comps (path_join (replica_path self) (join_with [BS] cs)) = R @ cs"
    unfolding R_def using plain g by (intro root_paths)
  have s: "comps (path_join (source_path self) (join_with [BS] cs)) = S @ cs"
    unfolding S_def using plain g by (intro root_paths)
  show ?thesis
  proof (cases "look (fs w) (R @ cs) \<noteq> None \<and> look (fs w) (S @ cs) = None")
    case False
    then have "delete_dir self (join_with [BS] cs) w = (Inr (), w)"
      by (auto simp: delete_dir_def path_exists_look r s)
    with ok have "w' = w" by simp
    moreover have "look (fs w) (R @ ds) = None" if "prefix cs ds" "look (fs w) (R @ cs) = None" for ds
      using that look_below_None[of "fs w" "R @ cs"] by (auto simp: prefix_def)
    ultimately show ?thesis using False by auto
  next
    case True
    let ?p = "path_join (replica_path self) (join_with [BS] cs)"
    from True have run: "delete_dir self (join_with [BS] cs) w =
        then_do (shutil_rmtree ?p w) (add_log ''REMOVED'' ?p (log_path self))"
      by (simp add: delete_dir_def path_exists_look r s)
    from True obtain k where k: "lookup (R @ cs) (fs w) = Some k" by (auto simp: look_def)
    have w': "fs w' = alter (R @ cs) None (fs w)"
    proof (cases k)
      case (File b m x)
      with k have "shutil_rmtree ?p w = (Inl NotADirectoryError, w)"
        by (simp add: shutil_rmtree_def r)
      with run ok show ?thesis by (simp add: then_do_def)
    next
      case (Dir es)
      with k g(1) have "shutil_rmtree ?p w =
          (Inr (), w\<lparr>fs := alter (R @ cs) None (fs w), events := events w @ [Rmtree ?p]\<rparr>)"
        by (simp add: shutil_rmtree_def r)
      with run ok show ?thesis by (auto simp add: then_do_def add_log_def)
    qed
    have "look (fs w') (S @ ds) = look (fs w) (S @ ds)" for ds
      unfolding w' using incomparable_below[OF inc, of cs ds] by (simp add: look_alter_other)
    moreover have "look (fs w') (R @ ds) = (if prefix cs ds then None else look (fs w) (R @ ds))" for ds
      unfolding w' using g(1) by (simp add: look_remove)
    moreover have "lookup R (fs w') = map_option (alter cs None) (lookup R (fs w))"
      unfolding w' using g(1) by (rule lookup_alter_below)
    moreover have "lookup S (fs w') = lookup S (fs w)"
      unfolding w' using incomparable_below[OF inc, of cs "[]"] incomparable_below[OF inc(2,1), of "[]" cs]
      by (simp add: lookup_alter_other)
    ultimately show ?thesis using True by simp
  qed
qed

lemma delete_file_effect:
  fixes self :: SyncFiles
  defines "S \<equiv> comps (source_path self)" and "R \<equiv> comps (replica_path self)"
  assumes pr: "proper_roots self" and g: "cs \<noteq> []" "list_all good_name cs"
      and ok: "delete_file self (join_with [BS] cs) w = (Inr u, w')"
  shows "(\<forall>ds. look (fs w') (S @ ds) = look (fs w) (S @ ds))
       \<and> (\<forall>ds. look (fs w') (R @ ds) =
              (if prefix cs ds \<and> look (fs w) (S @ cs) = None then None else look (fs w) (R @ ds)))
       \<and> lookup R (fs w') = (if look (fs w) (R @ cs) \<noteq> None \<and> look (fs w) (S @ cs) = None
             then map_option (alter cs None) (lookup R (fs w)) else lookup R (fs w))
       \<and> lookup S (fs w') = lookup S (fs w)"
proof -
  from pr have plain: "plain_root (replica_path self)" "plain_root (source_path self)"
    and inc: "\<not> prefix R S" "\<not> prefix S R"
    by (simp_all add: proper_roots_def S_def R_def)
  have r: "comps (path_join (replica_path self) (join_with [BS] cs)) = R @ cs"
    unfolding R_def using plain g by (intro root_paths)
  have s: "comps (path_join (source_path self) (join_with [BS] cs)) = S @ cs"
    unfolding S_def using plain g by (intro root_paths)
  show ?thesis
  proof (cases "look (fs w) (R @ cs) \<noteq> None \<and> look (fs w) (S @ cs) = None")
    case False
    then have "delete_file self (join_with [BS] cs) w = (Inr (), w)"
      by (auto simp: delete_file_def path_exists_look r s)
    with ok have "w' = w" by simp
    moreover have "look (fs w) (R @ ds) = None" if "prefix cs ds" "look (fs w) (R @ cs) = None" for ds
      using that look_below_None[of "fs w" "R @ cs"] by (auto simp: prefix_def)
    ultimately show ?thesis using False by auto
  next
    case True
    let ?p = "path_join (replica_path self) (join_with [BS] cs)"
    from True have run: "delete_file self (join_with [BS] cs) w =
        then_do (os_remove ?p w) (add_log ''REMOVED'' ?p (log_path self))"
      by (simp add: delete_file_def path_exists_look r s)
    from True obtain k where k: "lookup (R @ cs) (fs w) = Some k" by (auto simp: look_def)
    have w': "fs w' = alter (R @ cs) None (fs w)"
    proof (cases k)
      case (Dir es)
      with k have "os_remove ?p w = (Inl PermissionError, w)"
        by (simp add: os_remove_def r)
      with run ok show ?thesis by (simp add: then_do_def)
    next
      case (File b m x)
      with k have "os_remove ?p w =
          (Inr (), w\<lparr>fs := alter (R @ cs) None (fs w), events := events w @ [Remove ?p]\<rparr>)"
        by (simp add: os_remove_def r)
      with run ok show ?thesis by (auto simp add: then_do_def add_log_def)
    qed
    have "look (fs w') (S @ ds) = look (fs w) (S @ ds)" for ds
      unfolding w' using incomparable_below[OF inc, of cs ds] by (simp add: look_alter_other)
    moreover have "look (fs w') (R @ ds) = (if prefix cs ds then None else look (fs w) (R @ ds))" for ds
      unfolding w' using g(1) by (simp add: look_remove)
    moreover have "lookup R (fs w') = map_option (alter cs None) (lookup R (fs w))"
      unfolding w' using g(1) by (rule lookup_alter_below)
    moreover have "lookup S (fs w') = lookup S (fs w)"
      unfolding w' using incomparable_below[OF inc, of cs "[]"] incomparable_below[OF inc(2,1), of "[]" cs]
      by (simp add: lookup_alter_other)
    ultimately show ?thesis using True by simp
  qed
qed

lemma wf_alter_at:
  assumes "lookup R t = Some k" "wf_node k" "cs \<noteq> []" "list_all good_name cs"
          "case v of None \<Rightarrow> True | Some x \<Rightarrow> wf_node x"
  shows "\<exists>k'. lookup R (alter (R @ cs) v t) = Some k' \<and> wf_node k'"
  using lookup_alter_below[OF assms(3), of R v t] assms(1) wf_alter[OF assms(2,4,5)] by simp

lemma copy_file_effect:
  fixes self :: SyncFiles
  defines "S \<equiv> comps (source_path self)" and "R \<equiv> comps (replica_path self)"
  assumes pr: "proper_roots self" and g: "cs \<noteq> []" "list_all good_name cs"
      and ok: "copy_file H self (join_with [BS] cs) w = (Inr u, w')"
  shows "(\<forall>ds. look (fs w') (S @ ds) = look (fs w) (S @ ds))
       \<and> (\<forall>ds. ds \<noteq> cs \<longrightarrow> look (fs w') (R @ ds) = look (fs w) (R @ ds))
       \<and> (look (fs w) (S @ cs) = None \<longrightarrow> look (fs w') (R @ cs) = look (fs w) (R @ cs))
       \<and> (look (fs w) (S @ cs) \<noteq> None \<longrightarrow>
            (\<exists>sb sm sk rb rm rk. look (fs w) (S @ cs) = Some (Some (sb, sm, sk))
               \<and> look (fs w') (R @ cs) = Some (Some (rb, rm, rk))
               \<and> stream_digest H rb = stream_digest H sb)
            \<and> look (fs w) (R @ cs) \<noteq> Some None)
       \<and> ((\<exists>k. lookup R (fs w) = Some k \<and> wf_node k) \<longrightarrow> (\<exists>k. lookup R (fs w') = Some k \<and> wf_node k))
       \<and> lookup S (fs w') = lookup S (fs w)"
proof -
  from pr have plain: "plain_root (replica_path self)" "plain_root (source_path self)"
    and inc: "\<not> prefix R S" "\<not> prefix S R"
    by (simp_all add: proper_roots_def S_def R_def)
  let ?rp = "path_join (replica_path self) (join_with [BS] cs)"
  let ?sp = "path_join (source_path self) (join_with [BS] cs)"
  let ?t = "fs w"
  have r: "comps ?rp = R @ cs"
    unfolding R_def using plain g by (intro root_paths)
  have s: "comps ?sp = S @ cs"
    unfolding S_def using plain g by (intro root_paths)
  have ne: "S @ cs \<noteq> R @ cs" using incomparable_below[OF inc, of cs cs] by auto
  have bl: "butlast (R @ cs) = R @ butlast cs" using g(1) by (simp add: butlast_append)
  have src_same: "look (alter (R @ cs) v t) (S @ ds) = look t (S @ ds)" for v t ds
    using incomparable_below[OF inc, of cs ds] by (simp add: look_alter_other)
  have node_same: "lookup S (alter (R @ cs) v t) = lookup S t" for v t
    using incomparable_below[OF inc, of cs "[]"] incomparable_below[OF inc(2,1), of "[]" cs]
    by (simp add: lookup_alter_other)
  consider (new) "look ?t (R @ cs) = None" "look ?t (S @ cs) \<noteq> None"
    | (both) "look ?t (R @ cs) \<noteq> None" "look ?t (S @ cs) \<noteq> None"
    | (gone) "look ?t (S @ cs) = None" by blast
  then show ?thesis
  proof cases
    case gone
    then have "copy_file H self (join_with [BS] cs) w = (Inr (), w)"
      by (simp add: copy_file_def Let_def path_exists_look r s)
    with ok have "w' = w" by simp
    with gone show ?thesis by simp
  next
    case new
    then have run: "copy_file H self (join_with [BS] cs) w =
        then_do (shutil_copy2 ?sp ?rp w) (add_log ''CREATED'' ?rp (log_path self))"
      by (simp add: copy_file_def Let_def path_exists_look r s)
    from new(1) have nr: "lookup (R @ cs) ?t = None" by (simp add: look_def)
    then have nd: "\<not> is_dir ?t ?rp" by (simp add: is_dir_def r)
    from new(2) obtain k where k: "lookup (S @ cs) ?t = Some k" by (auto simp: look_def)
    show ?thesis
    proof (cases k)
      case (Dir es)
      with k nd nr ne have "shutil_copy2 ?sp ?rp w = (Inl PermissionError, w)"
        by (simp add: shutil_copy2_def Let_def r s path_exists_def)
      with run ok show ?thesis by (simp add: then_do_def)
    next
      case (File b m x)
      show ?thesis
      proof (cases "lookup (R @ butlast cs) ?t")
        case None
        with k File nd nr ne bl have "fst (shutil_copy2 ?sp ?rp w) = Inl FileNotFoundError"
          by (simp add: shutil_copy2_def Let_def r s path_exists_def)
        with run ok show ?thesis by (cases "shutil_copy2 ?sp ?rp w") (simp add: then_do_def)
      next
        case (Some p)
        show ?thesis
        proof (cases p)
          case (File b' m' x')
          with Some k \<open>k = File b m x\<close> nd nr ne bl
          have "fst (shutil_copy2 ?sp ?rp w) = Inl NotADirectoryError"
            by (simp add: shutil_copy2_def Let_def r s path_exists_def)
          with run ok show ?thesis by (cases "shutil_copy2 ?sp ?rp w") (simp add: then_do_def)
        next
          case (Dir es)
          with Some k \<open>k = File b m x\<close> nd nr ne bl
          have "shutil_copy2 ?sp ?rp w =
                  (Inr (), w\<lparr>fs := alter (R @ cs) (Some (File b m x)) ?t,
                             events := events w @ [Copy2 ?sp ?rp]\<rparr>)"
            by (simp add: shutil_copy2_def Let_def r s path_exists_def)
          with run ok have w': "fs w' = alter (R @ cs) (Some (File b m x)) ?t"
            by (auto simp: then_do_def add_log_def)
          have par: "look ?t (butlast (R @ cs)) = Some None"
            using Some Dir bl by (simp add: look_def)
          have lk: "look (fs w') (R @ ds) = (if ds = cs then Some (Some (b, m, x)) else look ?t (R @ ds))" for ds
            unfolding w' using look_write[of ?t "R @ cs" b m x "R @ ds"] new(1) par g(1) by simp
          have sk: "look ?t (S @ cs) = Some (Some (b, m, x))" using k File by (simp add: look_def)
          have wf: "\<exists>k'. lookup R (fs w') = Some k' \<and> wf_node k'"
            if "\<exists>k. lookup R ?t = Some k \<and> wf_node k"
            using that unfolding w' by (auto intro!: wf_alter_at g)
          show ?thesis using lk sk new(1) wf src_same[of _ ?t] node_same[of _ ?t] by (simp add: w')
        qed
      qed
    qed
  next
    case both
    then have run: "copy_file H self (join_with [BS] cs) w =
        (case compare_files H ?t ?rp ?sp of
           Inl e \<Rightarrow> (Inl e, w)
         | Inr same \<Rightarrow>
             if \<not> same
             then then_do (then_do (os_remove ?rp w) (shutil_copy2 ?sp ?rp))
                    (add_log ''MODIFIED'' ?rp (log_path self))
             else (Inr (), w))"
      by (auto simp add: copy_file_def Let_def path_exists_look r s)
    from both obtain kr ks where kr: "lookup (R @ cs) ?t = Some kr" and ks: "lookup (S @ cs) ?t = Some ks"
      by (auto simp: look_def)
    show ?thesis
    proof (cases kr)
      case (Dir es)
      with kr have "compare_files H ?t ?rp ?sp = Inl PermissionError"
        by (simp add: compare_files_def read_file_def r)
      with run ok show ?thesis by simp
    next
      case rf: (File rb rm rx)
      show ?thesis
      proof (cases ks)
        case (Dir es)
        with ks kr rf have "compare_files H ?t ?rp ?sp = Inl PermissionError"
          by (simp add: compare_files_def read_file_def r s)
        with run ok show ?thesis by simp
      next
        case sf: (File sb sm sx)
        have cmp: "compare_files H ?t ?rp ?sp = Inr (stream_digest H rb = stream_digest H sb)"
          using kr ks rf sf by (simp add: compare_files_def read_file_def r s)
        have lr: "look ?t (R @ cs) = Some (Some (rb, rm, rx))" using kr rf by (simp add: look_def)
        have ls: "look ?t (S @ cs) = Some (Some (sb, sm, sx))" using ks sf by (simp add: look_def)
        show ?thesis
        proof (cases "stream_digest H rb = stream_digest H sb")
          case True
          with run cmp ok have "w' = w" by simp
          with lr ls True show ?thesis by simp
        next
          case False
          have rep: "lookup (comps ?rp) ?t = Some (File rb rm rx)" using kr rf r by simp
          have src: "lookup (comps ?sp) ?t = Some (File sb sm sx)" using ks sf s by simp
          have "comps ?sp \<noteq> comps ?rp" using ne r s by simp
          from replace_file[OF rep src this, of "''MODIFIED''" "log_path self"] run cmp False ok
          have w': "fs w' = alter (R @ cs) (Some (File sb sm sx)) (alter (R @ cs) None ?t)"
            by (auto simp: r)
          let ?t1 = "alter (R @ cs) None ?t"
          have l1: "look ?t1 ds = (if prefix (R @ cs) ds then None else look ?t ds)" for ds
            using g(1) by (simp add: look_remove)
          have par0: "look ?t (butlast (R @ cs)) = Some None"
            using look_parent[of ?t "R @ cs"] lr g(1) by simp
          have "\<not> prefix (R @ cs) (butlast (R @ cs))"
          proof
            assume "prefix (R @ cs) (butlast (R @ cs))"
            then have "length (R @ cs) \<le> length (butlast (R @ cs))" by (rule prefix_length_le)
            with g(1) show False by (cases cs) simp_all
          qed
          then have par: "look ?t1 (butlast (R @ cs)) = Some None" using par0 l1 by simp
          have n1: "look ?t1 (R @ cs) \<noteq> Some None" using l1 by simp
          have lk: "look (fs w') (R @ ds) = (if ds = cs then Some (Some (sb, sm, sx)) else look ?t (R @ ds))" for ds
          proof -
            have "look (fs w') (R @ ds) = (if ds = cs then Some (Some (sb, sm, sx)) else look ?t1 (R @ ds))"
              unfolding w' using look_write[OF n1 par, of sb sm sx "R @ ds"] g(1) by simp
            moreover have "look ?t (R @ ds) = None" if "prefix cs ds" "ds \<noteq> cs"
            proof -
              from that obtain es where "ds = cs @ es" "es \<noteq> []" by (auto simp: prefix_def)
              then show ?thesis using look_below_file[OF lr, of es] by simp
            qed
            ultimately show ?thesis using l1 by auto
          qed
          have wf: "\<exists>k'. lookup R (fs w') = Some k' \<and> wf_node k'"
            if "\<exists>k. lookup R ?t = Some k \<and> wf_node k"
          proof -
            from that obtain k where "lookup R ?t = Some k" "wf_node k" by blast
            from wf_alter_at[OF this g, of None] obtain k1 where "lookup R ?t1 = Some k1" "wf_node k1"
              by auto
            from wf_alter_at[OF this g, of "Some (File sb sm sx)"] show ?thesis unfolding w' by simp
          qed
          have ss: "look (fs w') (S @ ds) = look ?t (S @ ds)" for ds
            unfolding w' by (simp add: src_same)
          have ns: "lookup S (fs w') = lookup S ?t"
            unfolding w' by (simp add: node_same)
          show ?thesis using lk ls lr wf ss ns by simp
        qed
      qed
    qed
  qed
qed

section \<open>The phases of a cycle on proper roots\<close>

lemma removal_phase:
  fixes self :: SyncFiles and D :: "string list list"
  defines "S \<equiv> comps (source_path self)" and "R \<equiv> comps (replica_path self)"
  assumes good: "\<forall>cs \<in> set D. cs \<noteq> [] \<and> list_all good_name cs"
      and eff: "\<And>cs v u v'. cs \<in> set D \<Longrightarrow> body (join_with [BS] cs) v = (Inr u, v') \<Longrightarrow>
           (\<forall>ds. look (fs v') (S @ ds) = look (fs v) (S @ ds))
         \<and> (\<forall>ds. look (fs v') (R @ ds) =
                (if prefix cs ds \<and> look (fs v) (S @ cs) = None then None else look (fs v) (R @ ds)))
         \<and> lookup R (fs v') = (if look (fs v) (R @ cs) \<noteq> None \<and> look (fs v) (S @ cs) = None
               then map_option (alter cs None) (lookup R (fs v)) else lookup R (fs v))
         \<and> lookup S (fs v') = lookup S (fs v)"
  shows "case for_each body (map (join_with [BS]) D) w of
           (Inl e, w') \<Rightarrow> True
         | (Inr u, w') \<Rightarrow>
             (\<forall>ds. look (fs w') (S @ ds) = look (fs w) (S @ ds))
           \<and> (\<forall>cs \<in> set D. look (fs w) (S @ cs) = None \<longrightarrow> look (fs w') (R @ cs) = None)
           \<and> (\<forall>ds. look (fs w') (R @ ds) \<noteq> None \<longrightarrow> look (fs w') (R @ ds) = look (fs w) (R @ ds))
           \<and> (\<forall>ds. look (fs w) (R @ ds) \<noteq> None \<and> look (fs w') (R @ ds) = None \<longrightarrow>
                  look (fs w) (S @ ds) = None)
           \<and> ((\<exists>k. lookup R (fs w) = Some k \<and> wf_node k) \<longrightarrow> (\<exists>k. lookup R (fs w') = Some k \<and> wf_node k))
           \<and> lookup S (fs w') = lookup S (fs w)"
proof -
  let ?t0 = "fs w"
  define I where "I = (\<lambda>(ys::string list list) (w'::world).
             (\<forall>ds. look (fs w') (S @ ds) = look ?t0 (S @ ds))
           \<and> (\<forall>cs \<in> set ys. look ?t0 (S @ cs) = None \<longrightarrow> look (fs w') (R @ cs) = None)
           \<and> (\<forall>ds. look (fs w') (R @ ds) \<noteq> None \<longrightarrow> look (fs w') (R @ ds) = look ?t0 (R @ ds))
           \<and> (\<forall>ds. look ?t0 (R @ ds) \<noteq> None \<and> look (fs w') (R @ ds) = None \<longrightarrow>
                  look ?t0 (S @ ds) = None)
           \<and> ((\<exists>k. lookup R ?t0 = Some k \<and> wf_node k) \<longrightarrow> (\<exists>k. lookup R (fs w') = Some k \<and> wf_node k))
           \<and> lookup S (fs w') = lookup S ?t0)"
  have init: "I [] w" by (auto simp add: I_def)
  have step: "case body (join_with [BS] cs) v of
                (Inl e, w') \<Rightarrow> True
              | (Inr u, w') \<Rightarrow> I (ys @ [cs]) w'"
    if D: "D = ys @ cs # zs" and I: "I ys v" for ys cs zs v
  proof (cases "body (join_with [BS] cs) v")
    case (Pair a v')
    show ?thesis
    proof (cases a)
      case (Inl e) with Pair show ?thesis by simp
    next
      case (Inr u)
      from D good have g: "cs \<noteq> []" "list_all good_name cs" and mem: "cs \<in> set D" by auto
      from I have i1: "\<And>ds. look (fs v) (S @ ds) = look ?t0 (S @ ds)"
        and i2: "\<And>c. c \<in> set ys \<Longrightarrow> look ?t0 (S @ c) = None \<Longrightarrow> look (fs v) (R @ c) = None"
        and i3: "\<And>ds. look (fs v) (R @ ds) \<noteq> None \<Longrightarrow> look (fs v) (R @ ds) = look ?t0 (R @ ds)"
        and i4: "\<And>ds. look ?t0 (R @ ds) \<noteq> None \<Longrightarrow> look (fs v) (R @ ds) = None \<Longrightarrow>
                  look ?t0 (S @ ds) = None"
        and i5: "(\<exists>k. lookup R ?t0 = Some k \<and> wf_node k) \<Longrightarrow> (\<exists>k. lookup R (fs v) = Some k \<and> wf_node k)"
        and i6: "lookup S (fs v) = lookup S ?t0"
        unfolding I_def by blast+
      from eff[OF mem, of v u v'] Pair Inr
      have e1: "\<And>ds. look (fs v') (S @ ds) = look (fs v) (S @ ds)"
        and e2: "\<And>ds. look (fs v') (R @ ds) =
                (if prefix cs ds \<and> look (fs v) (S @ cs) = None then None else look (fs v) (R @ ds))"
        and e3: "lookup R (fs v') = (if look (fs v) (R @ cs) \<noteq> None \<and> look (fs v) (S @ cs) = None
               then map_option (alter cs None) (lookup R (fs v)) else lookup R (fs v))"
        and e4: "lookup S (fs v') = lookup S (fs v)"
        by simp_all
      have below: "look ?t0 (S @ ds) = None" if "prefix cs ds" "look ?t0 (S @ cs) = None" for ds
      proof -
        from that(1) obtain es where "ds = cs @ es" by (auto simp: prefix_def)
        then show ?thesis using look_below_None[OF that(2), of es] by simp
      qed
      have n1: "\<forall>ds. look (fs v') (S @ ds) = look ?t0 (S @ ds)" using e1 i1 by simp
      have n2: "\<forall>c \<in> set (ys @ [cs]). look ?t0 (S @ c) = None \<longrightarrow> look (fs v') (R @ c) = None"
        using i2 e2 i1 by auto
      have n3: "\<forall>ds. look (fs v') (R @ ds) \<noteq> None \<longrightarrow> look (fs v') (R @ ds) = look ?t0 (R @ ds)"
        using i3 e2 by (auto split: if_splits)
      have n4: "\<forall>ds. look ?t0 (R @ ds) \<noteq> None \<and> look (fs v') (R @ ds) = None \<longrightarrow> look ?t0 (S @ ds) = None"
      proof (intro allI impI)
        fix ds assume a: "look ?t0 (R @ ds) \<noteq> None \<and> look (fs v') (R @ ds) = None"
        show "look ?t0 (S @ ds) = None"
        proof (cases "look (fs v) (R @ ds) = None")
          case True with a i4 show ?thesis by blast
        next
          case False
          with a e2[of ds] have "prefix cs ds" "look (fs v) (S @ cs) = None" by (auto split: if_splits)
          with i1 below show ?thesis by simp
        qed
      qed
      have n5: "(\<exists>k. lookup R ?t0 = Some k \<and> wf_node k) \<longrightarrow> (\<exists>k. lookup R (fs v') = Some k \<and> wf_node k)"
      proof
        assume "\<exists>k. lookup R ?t0 = Some k \<and> wf_node k"
        from i5[OF this] obtain k where k: "lookup R (fs v) = Some k" "wf_node k" by blast
        have "wf_node (alter cs None k)" using k(2) g(2) by (intro wf_alter) simp_all
        with k e3 show "\<exists>k. lookup R (fs v') = Some k \<and> wf_node k" by auto
      qed
      have n6: "lookup S (fs v') = lookup S ?t0" using e4 i6 by simp
      have "I (ys @ [cs]) v'" unfolding I_def using n1 n2 n3 n4 n5 n6 by blast
      with Pair Inr show ?thesis by simp
    qed
  qed
  have "case for_each (\<lambda>cs. body (join_with [BS] cs)) D w of
           (Inl e, w') \<Rightarrow> True
         | (Inr u, w') \<Rightarrow> I D w'"
  proof (rule for_each_rule[where I = I and E = "\<lambda>e w'. True", OF init])
    fix ys x zs v
    assume "D = ys @ x # zs" "I ys v"
    then show "case body (join_with [BS] x) v of
                 (Inl e, w') \<Rightarrow> True
               | (Inr u, w') \<Rightarrow> I (ys @ [x]) w'"
      by (rule step)
  qed
  then show ?thesis unfolding for_each_map I_def .
qed

lemma copy_phase:
  fixes self :: SyncFiles and F :: "string list list"
  defines "S \<equiv> comps (source_path self)" and "R \<equiv> comps (replica_path self)"
  assumes pr: "proper_roots self"
      and good: "\<forall>cs \<in> set F. cs \<noteq> [] \<and> list_all good_name cs"
  shows "case for_each (copy_file H self) (map (join_with [BS]) F) w of
           (Inl e, w') \<Rightarrow> True
         | (Inr u, w') \<Rightarrow>
             (\<forall>ds. look (fs w') (S @ ds) = look (fs w) (S @ ds))
           \<and> (\<forall>f \<in> set F. look (fs w) (S @ f) \<noteq> None \<longrightarrow>
                 (\<exists>sb sm sk rb rm rk. look (fs w) (S @ f) = Some (Some (sb, sm, sk))
                    \<and> look (fs w') (R @ f) = Some (Some (rb, rm, rk))
                    \<and> stream_digest H rb = stream_digest H sb))
           \<and> (\<forall>ds. look (fs w') (R @ ds) = look (fs w) (R @ ds)
                 \<or> (\<exists>g. look (fs w) (S @ ds) = Some (Some g)) \<and> look (fs w) (R @ ds) \<noteq> Some None
                   \<and> (\<exists>f. look (fs w') (R @ ds) = Some (Some f)))
           \<and> ((\<exists>k. lookup R (fs w) = Some k \<and> wf_node k) \<longrightarrow> (\<exists>k. lookup R (fs w') = Some k \<and> wf_node k))
           \<and> lookup S (fs w') = lookup S (fs w)"
proof -
  let ?t0 = "fs w"
  define I where "I = (\<lambda>(ys::string list list) (w'::world).
             (\<forall>ds. look (fs w') (S @ ds) = look ?t0 (S @ ds))
           \<and> (\<forall>f \<in> set ys. look ?t0 (S @ f) \<noteq> None \<longrightarrow>
                 (\<exists>sb sm sk rb rm rk. look ?t0 (S @ f) = Some (Some (sb, sm, sk))
                    \<and> look (fs w') (R @ f) = Some (Some (rb, rm, rk))
                    \<and> stream_digest H rb = stream_digest H sb))
           \<and> (\<forall>ds. look (fs w') (R @ ds) = look ?t0 (R @ ds)
                 \<or> (\<exists>g. look ?t0 (S @ ds) = Some (Some g)) \<and> look ?t0 (R @ ds) \<noteq> Some None
                   \<and> (\<exists>f. look (fs w') (R @ ds) = Some (Some f)))
           \<and> ((\<exists>k. lookup R ?t0 = Some k \<and> wf_node k) \<longrightarrow> (\<exists>k. lookup R (fs w') = Some k \<and> wf_node k))
           \<and> lookup S (fs w') = lookup S ?t0)"
  have init: "I [] w" by (auto simp add: I_def)
  have step: "case copy_file H self (join_with [BS] cs) v of
                (Inl e, w') \<Rightarrow> True
              | (Inr u, w') \<Rightarrow> I (ys @ [cs]) w'"
    if D: "F = ys @ cs # zs" and I: "I ys v" for ys cs zs v
  proof (cases "copy_file H self (join_with [BS] cs) v")
    case (Pair a v')
    show ?thesis
    proof (cases a)
      case (Inl e) with Pair show ?thesis by simp
    next
      case (Inr u)
      from D good have g: "cs \<noteq> []" "list_all good_name cs" by auto
      from I have i1: "\<And>ds. look (fs v) (S @ ds) = look ?t0 (S @ ds)"
        and i2: "\<And>f. f \<in> set ys \<Longrightarrow> look ?t0 (S @ f) \<noteq> None \<Longrightarrow>
                 (\<exists>sb sm sk rb rm rk. look ?t0 (S @ f) = Some (Some (sb, sm, sk))
                    \<and> look (fs v) (R @ f) = Some (Some (rb, rm, rk))
                    \<and> stream_digest H rb = stream_digest H sb)"
        and i3: "\<And>ds. look (fs v) (R @ ds) = look ?t0 (R @ ds)
                 \<or> (\<exists>g. look ?t0 (S @ ds) = Some (Some g)) \<and> look ?t0 (R @ ds) \<noteq> Some None
                   \<and> (\<exists>f. look (fs v) (R @ ds) = Some (Some f))"
        and i5: "(\<exists>k. lookup R ?t0 = Some k \<and> wf_node k) \<Longrightarrow> (\<exists>k. lookup R (fs v) = Some k \<and> wf_node k)"
        and i6: "lookup S (fs v) = lookup S ?t0"
        unfolding I_def by blast+
      from copy_file_effect[OF pr g, of H v u v', folded S_def R_def] Pair Inr
      have e1: "\<And>ds. look (fs v') (S @ ds) = look (fs v) (S @ ds)"
        and e2: "\<And>ds. ds \<noteq> cs \<Longrightarrow> look (fs v') (R @ ds) = look (fs v) (R @ ds)"
        and e3: "look (fs v) (S @ cs) = None \<Longrightarrow> look (fs v') (R @ cs) = look (fs v) (R @ cs)"
        and e4: "look (fs v) (S @ cs) \<noteq> None \<Longrightarrow>
            (\<exists>sb sm sk rb rm rk. look (fs v) (S @ cs) = Some (Some (sb, sm, sk))
               \<and> look (fs v') (R @ cs) = Some (Some (rb, rm, rk))
               \<and> stream_digest H rb = stream_digest H sb)
            \<and> look (fs v) (R @ cs) \<noteq> Some None"
        and e5: "(\<exists>k. lookup R (fs v) = Some k \<and> wf_node k) \<Longrightarrow> (\<exists>k. lookup R (fs v') = Some k \<and> wf_node k)"
        and e6: "lookup S (fs v') = lookup S (fs v)"
        by simp_all
      have n1: "\<forall>ds. look (fs v') (S @ ds) = look ?t0 (S @ ds)" using e1 i1 by simp
      have n2: "\<forall>f \<in> set (ys @ [cs]). look ?t0 (S @ f) \<noteq> None \<longrightarrow>
                 (\<exists>sb sm sk rb rm rk. look ?t0 (S @ f) = Some (Some (sb, sm, sk))
                    \<and> look (fs v') (R @ f) = Some (Some (rb, rm, rk))
                    \<and> stream_digest H rb = stream_digest H sb)"
      proof (intro ballI impI)
        fix f assume f: "f \<in> set (ys @ [cs])" and sf: "look ?t0 (S @ f) \<noteq> None"
        show "\<exists>sb sm sk rb rm rk. look ?t0 (S @ f) = Some (Some (sb, sm, sk))
                    \<and> look (fs v') (R @ f) = Some (Some (rb, rm, rk))
                    \<and> stream_digest H rb = stream_digest H sb"
        proof (cases "f = cs")
          case True
          with sf i1 have "look (fs v) (S @ cs) \<noteq> None" by simp
          from e4[OF this] show ?thesis using True i1 by simp
        next
          case False
          with f have "f \<in> set ys" by simp
          from i2[OF this sf] show ?thesis using e2[OF False] by simp
        qed
      qed
      have n3: "\<forall>ds. look (fs v') (R @ ds) = look ?t0 (R @ ds)
                 \<or> (\<exists>g. look ?t0 (S @ ds) = Some (Some g)) \<and> look ?t0 (R @ ds) \<noteq> Some None
                   \<and> (\<exists>f. look (fs v') (R @ ds) = Some (Some f))"
      proof
        fix ds
        show "look (fs v') (R @ ds) = look ?t0 (R @ ds)
                 \<or> (\<exists>g. look ?t0 (S @ ds) = Some (Some g)) \<and> look ?t0 (R @ ds) \<noteq> Some None
                   \<and> (\<exists>f. look (fs v') (R @ ds) = Some (Some f))"
        proof (cases "ds = cs")
          case False
          with e2 i3[of ds] show ?thesis by simp
        next
          case True
          show ?thesis
          proof (cases "look (fs v) (S @ cs) = None")
            case True
            with e3 i3[of cs] \<open>ds = cs\<close> show ?thesis by simp
          next
            case False
            from e4[OF False] obtain sb sm sk rb rm rk where
              new: "look (fs v') (R @ cs) = Some (Some (rb, rm, rk))" and old: "look (fs v) (R @ cs) \<noteq> Some None"
              and sf: "look (fs v) (S @ cs) = Some (Some (sb, sm, sk))"
              by blast
            have "look ?t0 (R @ cs) \<noteq> Some None" using i3[of cs] old by auto
            with new sf i1 \<open>ds = cs\<close> show ?thesis by simp
          qed
        qed
      qed
      have n5: "(\<exists>k. lookup R ?t0 = Some k \<and> wf_node k) \<longrightarrow> (\<exists>k. lookup R (fs v') = Some k \<and> wf_node k)"
        using i5 e5 by blast
      have n6: "lookup S (fs v') = lookup S ?t0" using e6 i6 by simp
      have "I (ys @ [cs]) v'" unfolding I_def using n1 n2 n3 n5 n6 by blast
      with Pair Inr show ?thesis by simp
    qed
  qed
  have "case for_each (\<lambda>cs. copy_file H self (join_with [BS] cs)) F w of
           (Inl e, w') \<Rightarrow> True
         | (Inr u, w') \<Rightarrow> I F w'"
  proof (rule for_each_rule[where I = I and E = "\<lambda>e w'. True", OF init])
    fix ys x zs v
    assume "F = ys @ x # zs" "I ys v"
    then show "case copy_file H self (join_with [BS] x) v of
                 (Inl e, w') \<Rightarrow> True
               | (Inr u, w') \<Rightarrow> I (ys @ [x]) w'"
      by (rule step)
  qed
  then show ?thesis unfolding for_each_map I_def .
qed

lemma list_dirs_proper:
  assumes "plain_root p" "length (split_on BS p) = 2" "lookup (comps p) t = Some (Dir es)" "wf_entries es"
  shows "list_dirs t [] p = Inr (map (join_with [BS]) (dirs_of es))"
  using assms(3) list_dirs_root_relative[OF assms(1,2,4), of "[]"]
  by (simp add: list_dirs_def scandir_def)

lemma list_files_proper:
  assumes "plain_root p" "length (split_on BS p) = 2" "lookup (comps p) t = Some (Dir es)" "wf_entries es"
  shows "list_files t [] p = Inr (map (join_with [BS]) (files_of es))"
  using assms(3) list_files_root_relative[OF assms(1,2,4), of "[]"]
  by (simp add: list_files_def scandir_def)

lemma look_at_root: "lookup S t = Some k \<Longrightarrow> look t (S @ cs) = look k cs"
  by (simp add: look_def lookup_append)

lemma then_do_Inr:
  "then_do r k = (Inr u, w2) \<Longrightarrow> \<exists>w1. r = (Inr (), w1) \<and> k w1 = (Inr u, w2)"
  by (cases r) (auto simp: then_do_def split: sum.splits)

lemma sync_folders_post:
  fixes self :: SyncFiles
  defines "S \<equiv> comps (source_path self)" and "R \<equiv> comps (replica_path self)"
  assumes pr: "proper_roots self"
      and fresh: "source_folders self = []" "replica_folders self = []"
      and src: "lookup S (fs w) = Some (Dir se)" "wf_entries se"
      and rep: "lookup R (fs w) = Some (Dir re)" "wf_entries re"
      and ok: "sync_folders self w = (Inr self1, w2)"
  shows "lookup S (fs w2) = lookup S (fs w)
       \<and> (\<forall>cs. cs \<noteq> [] \<and> look (fs w) (S @ cs) = Some None \<longrightarrow> look (fs w2) (R @ cs) \<noteq> None)
       \<and> (\<forall>cs. cs \<noteq> [] \<and> look (fs w2) (R @ cs) = Some None \<longrightarrow> look (fs w) (S @ cs) \<noteq> None)
       \<and> (\<forall>ds f. look (fs w2) (R @ ds) = Some (Some f) \<longrightarrow> look (fs w) (R @ ds) = Some (Some f))
       \<and> (\<exists>k. lookup R (fs w2) = Some k \<and> wf_node k)
       \<and> look (fs w2) R = Some None
       \<and> self1 = self\<lparr>source_folders := map (join_with [BS]) (dirs_of se),
                      replica_folders := map (join_with [BS]) (dirs_of re)\<rparr>"
proof -
  let ?Ds = "dirs_of se" and ?Dr = "dirs_of re"
  from pr have plain: "plain_root (source_path self)" "plain_root (replica_path self)"
    and two: "length (split_on BS (source_path self)) = 2" "length (split_on BS (replica_path self)) = 2"
    by (simp_all add: proper_roots_def)
  have ls: "list_dirs (fs w) [] (source_path self) = Inr (map (join_with [BS]) ?Ds)"
    using src by (intro list_dirs_proper plain two) (simp_all add: S_def)
  have lr: "list_dirs (fs w) [] (replica_path self) = Inr (map (join_with [BS]) ?Dr)"
    using rep by (intro list_dirs_proper plain two) (simp_all add: R_def)
  from ok have run: "then_do (for_each (create_dir self) (map (join_with [BS]) ?Ds) w)
                       (for_each (delete_dir self) (map (join_with [BS]) ?Dr)) = (Inr (), w2)"
    and s1: "self1 = self\<lparr>source_folders := map (join_with [BS]) ?Ds,
                      replica_folders := map (join_with [BS]) ?Dr\<rparr>"
    by (auto simp: sync_folders_def fresh ls lr split: prod.splits sum.splits)
  from then_do_Inr[OF run] obtain w1 where
    c: "for_each (create_dir self) (map (join_with [BS]) ?Ds) w = (Inr (), w1)" and
    d: "for_each (delete_dir self) (map (join_with [BS]) ?Dr) w1 = (Inr (), w2)" by blast
  have gs: "\<forall>cs \<in> set ?Ds. cs \<noteq> [] \<and> list_all good_name cs"
    using good_names_dirs_of[OF src(2)] by blast
  have gr: "\<forall>cs \<in> set ?Dr. cs \<noteq> [] \<and> list_all good_name cs"
    using good_names_dirs_of[OF rep(2)] by blast
  have rdir: "look (fs w) R = Some None" using rep(1) by (simp add: look_def)
  have post1: "(\<forall>ds. look (fs w1) (S @ ds) = look (fs w) (S @ ds))
           \<and> (\<forall>cs \<in> set ?Ds. look (fs w) (S @ cs) \<noteq> None \<longrightarrow> look (fs w1) (R @ cs) \<noteq> None)
           \<and> (\<forall>ds. look (fs w) (R @ ds) \<noteq> None \<longrightarrow> look (fs w1) (R @ ds) = look (fs w) (R @ ds))
           \<and> (\<forall>ds. look (fs w1) (R @ ds) \<noteq> None \<longrightarrow>
                 look (fs w) (R @ ds) \<noteq> None
               \<or> look (fs w1) (R @ ds) = Some None \<and> look (fs w) (S @ ds) \<noteq> None)
           \<and> (wf_node (the (lookup R (fs w))) \<longrightarrow> wf_node (the (lookup R (fs w1))))
           \<and> lookup S (fs w1) = lookup S (fs w)"
    using create_phase[OF pr gs dirs_of_parents_first, of w] rdir unfolding c S_def R_def by simp
  from post1
  have a1: "\<And>ds. look (fs w1) (S @ ds) = look (fs w) (S @ ds)"
    and a2: "\<And>cs. cs \<in> set ?Ds \<Longrightarrow> look (fs w) (S @ cs) \<noteq> None \<Longrightarrow> look (fs w1) (R @ cs) \<noteq> None"
    and a3: "\<And>ds. look (fs w) (R @ ds) \<noteq> None \<Longrightarrow> look (fs w1) (R @ ds) = look (fs w) (R @ ds)"
    and a4: "\<And>ds. look (fs w1) (R @ ds) \<noteq> None \<Longrightarrow>
                 look (fs w) (R @ ds) \<noteq> None
               \<or> look (fs w1) (R @ ds) = Some None \<and> look (fs w) (S @ ds) \<noteq> None"
    and a5: "wf_node (the (lookup R (fs w))) \<Longrightarrow> wf_node (the (lookup R (fs w1)))"
    and a6: "lookup S (fs w1) = lookup S (fs w)"
    by blast+
  have r1: "look (fs w1) R = Some None" using a3[of "[]"] rdir by simp
  then obtain re1 where re1: "lookup R (fs w1) = Some (Dir re1)" by (auto simp: look_lookup_dir)
  with a5 rep have wf1: "wf_entries re1" by simp
  have eff: "(\<forall>ds. look (fs v') (S @ ds) = look (fs v) (S @ ds))
         \<and> (\<forall>ds. look (fs v') (R @ ds) =
                (if prefix cs ds \<and> look (fs v) (S @ cs) = None then None else look (fs v) (R @ ds)))
         \<and> lookup R (fs v') = (if look (fs v) (R @ cs) \<noteq> None \<and> look (fs v) (S @ cs) = None
               then map_option (alter cs None) (lookup R (fs v)) else lookup R (fs v))
         \<and> lookup S (fs v') = lookup S (fs v)"
    if "cs \<in> set ?Dr" "delete_dir self (join_with [BS] cs) v = (Inr u, v')" for cs v u v'
  proof -
    from gr that(1) have g: "cs \<noteq> []" "list_all good_name cs" by auto
    show ?thesis using delete_dir_effect[OF pr g that(2)] unfolding S_def R_def .
  qed
  have "case for_each (delete_dir self) (map (join_with [BS]) ?Dr) w1 of
           (Inl e, w') \<Rightarrow> True
         | (Inr u, w') \<Rightarrow>
             (\<forall>ds. look (fs w') (S @ ds) = look (fs w1) (S @ ds))
           \<and> (\<forall>cs \<in> set ?Dr. look (fs w1) (S @ cs) = None \<longrightarrow> look (fs w') (R @ cs) = None)
           \<and> (\<forall>ds. look (fs w') (R @ ds) \<noteq> None \<longrightarrow> look (fs w') (R @ ds) = look (fs w1) (R @ ds))
           \<and> (\<forall>ds. look (fs w1) (R @ ds) \<noteq> None \<and> look (fs w') (R @ ds) = None \<longrightarrow>
                  look (fs w1) (S @ ds) = None)
           \<and> ((\<exists>k. lookup R (fs w1) = Some k \<and> wf_node k) \<longrightarrow> (\<exists>k. lookup R (fs w') = Some k \<and> wf_node k))
           \<and> lookup S (fs w') = lookup S (fs w1)"
    unfolding S_def R_def
    by (rule removal_phase[OF gr]) (rule eff[unfolded S_def R_def])
  then
  have post2: "(\<forall>ds. look (fs w2) (S @ ds) = look (fs w1) (S @ ds))
           \<and> (\<forall>cs \<in> set ?Dr. look (fs w1) (S @ cs) = None \<longrightarrow> look (fs w2) (R @ cs) = None)
           \<and> (\<forall>ds. look (fs w2) (R @ ds) \<noteq> None \<longrightarrow> look (fs w2) (R @ ds) = look (fs w1) (R @ ds))
           \<and> (\<forall>ds. look (fs w1) (R @ ds) \<noteq> None \<and> look (fs w2) (R @ ds) = None \<longrightarrow>
                  look (fs w1) (S @ ds) = None)
           \<and> ((\<exists>k. lookup R (fs w1) = Some k \<and> wf_node k) \<longrightarrow> (\<exists>k. lookup R (fs w2) = Some k \<and> wf_node k))
           \<and> lookup S (fs w2) = lookup S (fs w1)"
    unfolding d prod.case sum.case .
  from post2
  have b1: "\<And>ds. look (fs w2) (S @ ds) = look (fs w1) (S @ ds)"
    and b2: "\<And>cs. cs \<in> set ?Dr \<Longrightarrow> look (fs w1) (S @ cs) = None \<Longrightarrow> look (fs w2) (R @ cs) = None"
    and b3: "\<And>ds. look (fs w2) (R @ ds) \<noteq> None \<Longrightarrow> look (fs w2) (R @ ds) = look (fs w1) (R @ ds)"
    and b4: "\<And>ds. look (fs w1) (R @ ds) \<noteq> None \<Longrightarrow> look (fs w2) (R @ ds) = None \<Longrightarrow>
                  look (fs w1) (S @ ds) = None"
    and b5: "(\<exists>k. lookup R (fs w1) = Some k \<and> wf_node k) \<Longrightarrow> (\<exists>k. lookup R (fs w2) = Some k \<and> wf_node k)"
    and b6: "lookup S (fs w2) = lookup S (fs w1)"
    by blast+
  have F1: "lookup S (fs w2) = lookup S (fs w)" using a6 b6 by simp
  have sroot: "look (fs w) (S @ []) = Some None" using src(1) by (simp add: look_def)
  have F2: "look (fs w2) (R @ cs) \<noteq> None" if "cs \<noteq> []" "look (fs w) (S @ cs) = Some None" for cs
  proof -
    have "look (Dir se) cs = Some None" using that(2) look_at_root[OF src(1)] by simp
    then have "cs \<in> set ?Ds" using that(1) by (rule dirs_of_complete)
    from a2[OF this] that(2) have "look (fs w1) (R @ cs) \<noteq> None" by simp
    then show ?thesis using b4[of cs] a1[of cs] that(2) by auto
  qed
  have F3: "look (fs w) (S @ cs) \<noteq> None" if "cs \<noteq> []" "look (fs w2) (R @ cs) = Some None" for cs
  proof (rule ccontr)
    assume "\<not> look (fs w) (S @ cs) \<noteq> None"
    then have sn: "look (fs w) (S @ cs) = None" by simp
    from b3[of cs] that(2) have l1: "look (fs w1) (R @ cs) = Some None" by simp
    with a4[of cs] sn have "look (fs w) (R @ cs) \<noteq> None" by auto
    with a3[of cs] l1 have "look (fs w) (R @ cs) = Some None" by simp
    then have "look (Dir re) cs = Some None" using look_at_root[OF rep(1)] by simp
    then have "cs \<in> set ?Dr" using that(1) by (rule dirs_of_complete)
    from b2[OF this] sn a1[of cs] have "look (fs w2) (R @ cs) = None" by simp
    with that(2) show False by simp
  qed
  have F4: "look (fs w) (R @ ds) = Some (Some f)" if "look (fs w2) (R @ ds) = Some (Some f)" for ds f
  proof -
    from b3[of ds] that have l1: "look (fs w1) (R @ ds) = Some (Some f)" by simp
    with a4[of ds] have "look (fs w) (R @ ds) \<noteq> None" by auto
    with a3[of ds] l1 show ?thesis by simp
  qed
  have F6: "\<exists>k. lookup R (fs w2) = Some k \<and> wf_node k" using b5 re1 wf1 by simp
  have F7: "look (fs w2) R = Some None"
  proof -
    have "look (fs w2) (R @ []) \<noteq> None" using b4[of "[]"] r1 a1[of "[]"] sroot by auto
    from b3[OF this] r1 show ?thesis by simp
  qed
  show ?thesis
  proof (intro conjI allI impI)
    show "lookup S (fs w2) = lookup S (fs w)" by (rule F1)
    show "look (fs w2) (R @ cs) \<noteq> None" if "cs \<noteq> [] \<and> look (fs w) (S @ cs) = Some None" for cs
      using that F2 by blast
    show "look (fs w) (S @ cs) \<noteq> None" if "cs \<noteq> [] \<and> look (fs w2) (R @ cs) = Some None" for cs
      using that F3 by blast
    show "look (fs w) (R @ ds) = Some (Some f)" if "look (fs w2) (R @ ds) = Some (Some f)" for ds f
      using that by (rule F4)
    show "\<exists>k. lookup R (fs w2) = Some k \<and> wf_node k" by (rule F6)
    show "look (fs w2) R = Some None" by (rule F7)
    show "self1 = self\<lparr>source_folders := map (join_with [BS]) (dirs_of se),
                      replica_folders := map (join_with [BS]) (dirs_of re)\<rparr>" by (rule s1)
  qed
qed

lemma sync_files_post:
  fixes self :: SyncFiles
  defines "S \<equiv> comps (source_path self)" and "R \<equiv> comps (replica_path self)"
  assumes pr: "proper_roots self"
      and fresh: "source_files self = []" "replica_files self = []"
      and src: "lookup S (fs w) = Some (Dir se)" "wf_entries se"
      and rep: "lookup R (fs w) = Some (Dir re)" "wf_entries re"
      and ok: "sync_files H self w = (Inr self2, w4)"
  shows "lookup S (fs w4) = lookup S (fs w)
       \<and> (\<forall>f sb sm sk. look (fs w) (S @ f) = Some (Some (sb, sm, sk)) \<longrightarrow>
              (\<exists>rb rm rk. look (fs w4) (R @ f) = Some (Some (rb, rm, rk))
                 \<and> stream_digest H rb = stream_digest H sb))
       \<and> (\<forall>ds. look (fs w4) (R @ ds) \<noteq> None \<longrightarrow>
              look (fs w) (S @ ds) \<noteq> None \<or> look (fs w) (R @ ds) = Some None)
       \<and> (\<forall>ds. look (fs w) (R @ ds) \<noteq> None \<and> look (fs w) (S @ ds) \<noteq> None \<longrightarrow>
              look (fs w4) (R @ ds) \<noteq> None)
       \<and> (\<forall>ds. look (fs w) (R @ ds) = Some None \<and> look (fs w) (S @ ds) \<noteq> None \<longrightarrow>
              look (fs w4) (R @ ds) = Some None)
       \<and> (\<forall>ds f. look (fs w4) (R @ ds) = Some (Some f) \<longrightarrow>
              look (fs w) (R @ ds) = Some (Some f) \<or> (\<exists>g. look (fs w) (S @ ds) = Some (Some g)))
       \<and> (\<exists>k. lookup R (fs w4) = Some k \<and> wf_node k)
       \<and> self2 = self\<lparr>source_files := map (join_with [BS]) (files_of se),
                      replica_files := map (join_with [BS]) (files_of re)\<rparr>"
proof -
  let ?Fs = "files_of se" and ?Fr = "files_of re"
  from pr have plain: "plain_root (source_path self)" "plain_root (replica_path self)"
    and two: "length (split_on BS (source_path self)) = 2" "length (split_on BS (replica_path self)) = 2"
    by (simp_all add: proper_roots_def)
  have ls: "list_files (fs w) [] (source_path self) = Inr (map (join_with [BS]) ?Fs)"
    using src by (intro list_files_proper plain two) (simp_all add: S_def)
  have lr: "list_files (fs w) [] (replica_path self) = Inr (map (join_with [BS]) ?Fr)"
    using rep by (intro list_files_proper plain two) (simp_all add: R_def)
  from ok have run: "then_do (for_each (copy_file H self) (map (join_with [BS]) ?Fs) w)
                       (for_each (delete_file self) (map (join_with [BS]) ?Fr)) = (Inr (), w4)"
    and s2: "self2 = self\<lparr>source_files := map (join_with [BS]) ?Fs,
                      replica_files := map (join_with [BS]) ?Fr\<rparr>"
    by (auto simp: sync_files_def fresh ls lr split: prod.splits sum.splits)
  from then_do_Inr[OF run] obtain w3 where
    c: "for_each (copy_file H self) (map (join_with [BS]) ?Fs) w = (Inr (), w3)" and
    d: "for_each (delete_file self) (map (join_with [BS]) ?Fr) w3 = (Inr (), w4)" by blast
  have gs: "\<forall>cs \<in> set ?Fs. cs \<noteq> [] \<and> list_all good_name cs"
    using good_names_files_of[OF src(2)] by blast
  have gr: "\<forall>cs \<in> set ?Fr. cs \<noteq> [] \<and> list_all good_name cs"
    using good_names_files_of[OF rep(2)] by blast
  have "case for_each (copy_file H self) (map (join_with [BS]) ?Fs) w of
           (Inl e, w') \<Rightarrow> True
         | (Inr u, w') \<Rightarrow>
             (\<forall>ds. look (fs w') (S @ ds) = look (fs w) (S @ ds))
           \<and> (\<forall>f \<in> set ?Fs. look (fs w) (S @ f) \<noteq> None \<longrightarrow>
                 (\<exists>sb sm sk rb rm rk. look (fs w) (S @ f) = Some (Some (sb, sm, sk))
                    \<and> look (fs w') (R @ f) = Some (Some (rb, rm, rk))
                    \<and> stream_digest H rb = stream_digest H sb))
           \<and> (\<forall>ds. look (fs w') (R @ ds) = look (fs w) (R @ ds)
                 \<or> (\<exists>g. look (fs w) (S @ ds) = Some (Some g)) \<and> look (fs w) (R @ ds) \<noteq> Some None
                   \<and> (\<exists>f. look (fs w') (R @ ds) = Some (Some f)))
           \<and> ((\<exists>k. lookup R (fs w) = Some k \<and> wf_node k) \<longrightarrow> (\<exists>k. lookup R (fs w') = Some k \<and> wf_node k))
           \<and> lookup S (fs w') = lookup S (fs w)"
    unfolding S_def R_def by (rule copy_phase[OF pr gs])
  then have post3: "(\<forall>ds. look (fs w3) (S @ ds) = look (fs w) (S @ ds))
           \<and> (\<forall>f \<in> set ?Fs. look (fs w) (S @ f) \<noteq> None \<longrightarrow>
                 (\<exists>sb sm sk rb rm rk. look (fs w) (S @ f) = Some (Some (sb, sm, sk))
                    \<and> look (fs w3) (R @ f) = Some (Some (rb, rm, rk))
                    \<and> stream_digest H rb = stream_digest H sb))
           \<and> (\<forall>ds. look (fs w3) (R @ ds) = look (fs w) (R @ ds)
                 \<or> (\<exists>g. look (fs w) (S @ ds) = Some (Some g)) \<and> look (fs w) (R @ ds) \<noteq> Some None
                   \<and> (\<exists>f. look (fs w3) (R @ ds) = Some (Some f)))
           \<and> ((\<exists>k. lookup R (fs w) = Some k \<and> wf_node k) \<longrightarrow> (\<exists>k. lookup R (fs w3) = Some k \<and> wf_node k))
           \<and> lookup S (fs w3) = lookup S (fs w)"
    unfolding c prod.case sum.case .
  then have c1: "\<And>ds. look (fs w3) (S @ ds) = look (fs w) (S @ ds)"
    and c2: "\<And>f. f \<in> set ?Fs \<Longrightarrow> look (fs w) (S @ f) \<noteq> None \<Longrightarrow>
                 (\<exists>sb sm sk rb rm rk. look (fs w) (S @ f) = Some (Some (sb, sm, sk))
                    \<and> look (fs w3) (R @ f) = Some (Some (rb, rm, rk))
                    \<and> stream_digest H rb = stream_digest H sb)"
    and c3: "\<And>ds. look (fs w3) (R @ ds) = look (fs w) (R @ ds)
                 \<or> (\<exists>g. look (fs w) (S @ ds) = Some (Some g)) \<and> look (fs w) (R @ ds) \<noteq> Some None
                   \<and> (\<exists>f. look (fs w3) (R @ ds) = Some (Some f))"
    and c5: "(\<exists>k. lookup R (fs w) = Some k \<and> wf_node k) \<Longrightarrow> (\<exists>k. lookup R (fs w3) = Some k \<and> wf_node k)"
    and c6: "lookup S (fs w3) = lookup S (fs w)"
    by blast+
  have eff: "(\<forall>ds. look (fs v') (S @ ds) = look (fs v) (S @ ds))
         \<and> (\<forall>ds. look (fs v') (R @ ds) =
                (if prefix cs ds \<and> look (fs v) (S @ cs) = None then None else look (fs v) (R @ ds)))
         \<and> lookup R (fs v') = (if look (fs v) (R @ cs) \<noteq> None \<and> look (fs v) (S @ cs) = None
               then map_option (alter cs None) (lookup R (fs v)) else lookup R (fs v))
         \<and> lookup S (fs v') = lookup S (fs v)"
    if "cs \<in> set ?Fr" "delete_file self (join_with [BS] cs) v = (Inr u, v')" for cs v u v'
  proof -
    from gr that(1) have g: "cs \<noteq> []" "list_all good_name cs" by auto
    show ?thesis using delete_file_effect[OF pr g that(2)] unfolding S_def R_def .
  qed
  have "case for_each (delete_file self) (map (join_with [BS]) ?Fr) w3 of
           (Inl e, w') \<Rightarrow> True
         | (Inr u, w') \<Rightarrow>
             (\<forall>ds. look (fs w') (S @ ds) = look (fs w3) (S @ ds))
           \<and> (\<forall>cs \<in> set ?Fr. look (fs w3) (S @ cs) = None \<longrightarrow> look (fs w') (R @ cs) = None)
           \<and> (\<forall>ds. look (fs w') (R @ ds) \<noteq> None \<longrightarrow> look (fs w') (R @ ds) = look (fs w3) (R @ ds))
           \<and> (\<forall>ds. look (fs w3) (R @ ds) \<noteq> None \<and> look (fs w') (R @ ds) = None \<longrightarrow>
                  look (fs w3) (S @ ds) = None)
           \<and> ((\<exists>k. lookup R (fs w3) = Some k \<and> wf_node k) \<longrightarrow> (\<exists>k. lookup R (fs w') = Some k \<and> wf_node k))
           \<and> lookup S (fs w') = lookup S (fs w3)"
    unfolding S_def R_def
    by (rule removal_phase[OF gr]) (rule eff[unfolded S_def R_def])
  then have post4: "(\<forall>ds. look (fs w4) (S @ ds) = look (fs w3) (S @ ds))
           \<and> (\<forall>cs \<in> set ?Fr. look (fs w3) (S @ cs) = None \<longrightarrow> look (fs w4) (R @ cs) = None)
           \<and> (\<forall>ds. look (fs w4) (R @ ds) \<noteq> None \<longrightarrow> look (fs w4) (R @ ds) = look (fs w3) (R @ ds))
           \<and> (\<forall>ds. look (fs w3) (R @ ds) \<noteq> None \<and> look (fs w4) (R @ ds) = None \<longrightarrow>
                  look (fs w3) (S @ ds) = None)
           \<and> ((\<exists>k. lookup R (fs w3) = Some k \<and> wf_node k) \<longrightarrow> (\<exists>k. lookup R (fs w4) = Some k \<and> wf_node k))
           \<and> lookup S (fs w4) = lookup S (fs w3)"
    unfolding d prod.case sum.case .
  then have d2: "\<And>cs. cs \<in> set ?Fr \<Longrightarrow> look (fs w3) (S @ cs) = None \<Longrightarrow> look (fs w4) (R @ cs) = None"
    and d3: "\<And>ds. look (fs w4) (R @ ds) \<noteq> None \<Longrightarrow> look (fs w4) (R @ ds) = look (fs w3) (R @ ds)"
    and d4: "\<And>ds. look (fs w3) (R @ ds) \<noteq> None \<Longrightarrow> look (fs w4) (R @ ds) = None \<Longrightarrow>
                  look (fs w3) (S @ ds) = None"
    and d5: "(\<exists>k. lookup R (fs w3) = Some k \<and> wf_node k) \<Longrightarrow> (\<exists>k. lookup R (fs w4) = Some k \<and> wf_node k)"
    and d6: "lookup S (fs w4) = lookup S (fs w3)"
    by blast+
  show ?thesis
  proof (intro conjI allI impI)
    show "lookup S (fs w4) = lookup S (fs w)" using c6 d6 by simp
  next
    fix f sb sm sk assume sf: "look (fs w) (S @ f) = Some (Some (sb, sm, sk))"
    then have "look (Dir se) f = Some (Some (sb, sm, sk))" using look_at_root[OF src(1)] by simp
    then have "f \<in> set ?Fs" by (rule files_of_complete)
    from c2[OF this] sf obtain rb rm rk where
      r3: "look (fs w3) (R @ f) = Some (Some (rb, rm, rk))" and dg: "stream_digest H rb = stream_digest H sb"
      by auto
    have "look (fs w4) (R @ f) \<noteq> None" using d4[of f] r3 c1[of f] sf by auto
    from d3[OF this] r3 dg
    show "\<exists>rb rm rk. look (fs w4) (R @ f) = Some (Some (rb, rm, rk)) \<and> stream_digest H rb = stream_digest H sb"
      by simp
  next
    fix ds assume a: "look (fs w4) (R @ ds) \<noteq> None"
    show "look (fs w) (S @ ds) \<noteq> None \<or> look (fs w) (R @ ds) = Some None"
    proof (rule ccontr)
      assume n: "\<not> (look (fs w) (S @ ds) \<noteq> None \<or> look (fs w) (R @ ds) = Some None)"
      then have sn: "look (fs w) (S @ ds) = None" and nd: "look (fs w) (R @ ds) \<noteq> Some None" by auto
      from d3[OF a] a have l3: "look (fs w3) (R @ ds) \<noteq> None" "look (fs w4) (R @ ds) = look (fs w3) (R @ ds)" by auto
      from c3[of ds] sn have same: "look (fs w3) (R @ ds) = look (fs w) (R @ ds)" by auto
      with l3 nd obtain b m k where "look (fs w) (R @ ds) = Some (Some (b, m, k))"
        by (cases rule: look_cases[of "fs w" "R @ ds"]) auto
      then have "look (Dir re) ds = Some (Some (b, m, k))" using look_at_root[OF rep(1)] by simp
      then have "ds \<in> set ?Fr" by (rule files_of_complete)
      from d2[OF this] sn c1[of ds] have "look (fs w4) (R @ ds) = None" by simp
      with a show False by simp
    qed
  next
    fix ds assume a: "look (fs w) (R @ ds) \<noteq> None \<and> look (fs w) (S @ ds) \<noteq> None"
    from c3[of ds] a have "look (fs w3) (R @ ds) \<noteq> None" by auto
    then show "look (fs w4) (R @ ds) \<noteq> None" using d4[of ds] c1[of ds] a by auto
  next
    fix ds assume a: "look (fs w) (R @ ds) = Some None \<and> look (fs w) (S @ ds) \<noteq> None"
    from c3[of ds] a have l3: "look (fs w3) (R @ ds) = Some None" by auto
    then have "look (fs w4) (R @ ds) \<noteq> None" using d4[of ds] c1[of ds] a by auto
    from d3[OF this] l3 show "look (fs w4) (R @ ds) = Some None" by simp
  next
    fix ds f assume a: "look (fs w4) (R @ ds) = Some (Some f)"
    then have "look (fs w3) (R @ ds) = Some (Some f)" using d3[of ds] by simp
    with c3[of ds]
    show "look (fs w) (R @ ds) = Some (Some f) \<or> (\<exists>g. look (fs w) (S @ ds) = Some (Some g))" by auto
  next
    show "\<exists>k. lookup R (fs w4) = Some k \<and> wf_node k"
      using c5 d5 rep by simp
  next
    show "self2 = self\<lparr>source_files := map (join_with [BS]) (files_of se),
                      replica_files := map (join_with [BS]) (files_of re)\<rparr>" by (rule s2)
  qed
qed

lemma full_sync_post:
  fixes self :: SyncFiles
  defines "S \<equiv> comps (source_path self)" and "R \<equiv> comps (replica_path self)"
  assumes pr: "proper_roots self"
      and fresh: "fresh_lists self"
      and src: "lookup S (fs w) = Some (Dir se)" "wf_entries se"
      and rep: "lookup R (fs w) = Some (Dir re)" "wf_entries re"
      and ok: "full_sync H self w = (Inr self', w')"
  shows "self' = self
       \<and> lookup S (fs w') = lookup S (fs w)
       \<and> (\<exists>re'. lookup R (fs w') = Some (Dir re') \<and> wf_entries re')
       \<and> mirrored H S R (fs w')
       \<and> (\<forall>ds f. look (fs w') (R @ ds) = Some (Some f) \<longrightarrow>
              look (fs w) (R @ ds) = Some (Some f) \<or> (\<exists>g. look (fs w') (S @ ds) = Some (Some g)))"
proof -
  from fresh have fr: "source_folders self = []" "replica_folders self = []"
    "source_files self = []" "replica_files self = []" by (simp_all add: fresh_lists_def)
  from ok obtain self1 w2 self2 where
    a: "sync_folders self w = (Inr self1, w2)" and b: "sync_files H self1 w2 = (Inr self2, w')"
    and s': "self' = self2\<lparr>source_folders := [], source_files := [], replica_folders := [], replica_files := []\<rparr>"
    by (auto simp: full_sync_def split: prod.splits sum.splits)
  note F = sync_folders_post[OF pr fr(1,2) src[unfolded S_def] rep[unfolded R_def] a, folded S_def R_def]
  from F have F1: "lookup S (fs w2) = lookup S (fs w)"
    and F2: "\<And>cs. cs \<noteq> [] \<Longrightarrow> look (fs w) (S @ cs) = Some None \<Longrightarrow> look (fs w2) (R @ cs) \<noteq> None"
    and F3: "\<And>cs. cs \<noteq> [] \<Longrightarrow> look (fs w2) (R @ cs) = Some None \<Longrightarrow> look (fs w) (S @ cs) \<noteq> None"
    and F4: "\<And>ds f. look (fs w2) (R @ ds) = Some (Some f) \<Longrightarrow> look (fs w) (R @ ds) = Some (Some f)"
    and F6: "\<exists>k. lookup R (fs w2) = Some k \<and> wf_node k"
    and F7: "look (fs w2) R = Some None"
    and s1: "self1 = self\<lparr>source_folders := map (join_with [BS]) (dirs_of se),
                      replica_folders := map (join_with [BS]) (dirs_of re)\<rparr>"
    by blast+
  from F6 F7 obtain re2 where rep2: "lookup R (fs w2) = Some (Dir re2)" "wf_entries re2"
    by (auto simp: look_lookup_dir)
  have pr1: "proper_roots self1" using pr s1 by (simp add: proper_roots_def)
  have paths: "comps (source_path self1) = S" "comps (replica_path self1) = R"
    using s1 by (simp_all add: S_def R_def)
  have fr1: "source_files self1 = []" "replica_files self1 = []" using s1 fr by simp_all
  have src2: "lookup (comps (source_path self1)) (fs w2) = Some (Dir se)" using F1 src(1) paths by simp
  have rep2': "lookup (comps (replica_path self1)) (fs w2) = Some (Dir re2)" using rep2 paths by simp
  note G = sync_files_post[OF pr1 fr1 src2 src(2) rep2' rep2(2) b, unfolded paths]
  from G have G0: "lookup S (fs w') = lookup S (fs w2)"
    and G2: "\<And>f sb sm sk. look (fs w2) (S @ f) = Some (Some (sb, sm, sk)) \<Longrightarrow>
              (\<exists>rb rm rk. look (fs w') (R @ f) = Some (Some (rb, rm, rk))
                 \<and> stream_digest H rb = stream_digest H sb)"
    and G3: "\<And>ds. look (fs w') (R @ ds) \<noteq> None \<Longrightarrow>
              look (fs w2) (S @ ds) \<noteq> None \<or> look (fs w2) (R @ ds) = Some None"
    and G4: "\<And>ds. look (fs w2) (R @ ds) \<noteq> None \<Longrightarrow> look (fs w2) (S @ ds) \<noteq> None \<Longrightarrow>
              look (fs w') (R @ ds) \<noteq> None"
    and G5: "\<And>ds. look (fs w2) (R @ ds) = Some None \<Longrightarrow> look (fs w2) (S @ ds) \<noteq> None \<Longrightarrow>
              look (fs w') (R @ ds) = Some None"
    and G6: "\<And>ds f. look (fs w') (R @ ds) = Some (Some f) \<Longrightarrow>
              look (fs w2) (R @ ds) = Some (Some f) \<or> (\<exists>g. look (fs w2) (S @ ds) = Some (Some g))"
    and G7: "\<exists>k. lookup R (fs w') = Some k \<and> wf_node k"
    and s2: "self2 = self1\<lparr>source_files := map (join_with [BS]) (files_of se),
                      replica_files := map (join_with [BS]) (files_of re2)\<rparr>"
    by blast+
  have sl2: "look (fs w2) (S @ ds) = look (fs w) (S @ ds)" for ds
    using F1 src(1) by (simp add: look_at_root)
  have sl': "look (fs w') (S @ ds) = look (fs w) (S @ ds)" for ds
    using G0 F1 src(1) by (simp add: look_at_root)
  have sroot: "look (fs w) (S @ []) = Some None" using src(1) by (simp add: look_def)
  have 1: "self' = self" unfolding s' s2 s1 using fr by simp
  have 2: "lookup S (fs w') = lookup S (fs w)" using G0 F1 by simp
  have r': "look (fs w') R = Some None" using G5[of "[]"] F7 sl2[of "[]"] sroot by simp
  with G7 have 3: "\<exists>re'. lookup R (fs w') = Some (Dir re') \<and> wf_entries re'"
    by (auto simp: look_lookup_dir)
  have Q1: "look (fs w') (R @ cs) \<noteq> None" if "cs \<noteq> []" "look (fs w') (S @ cs) \<noteq> None" for cs
  proof (cases rule: look_cases[of "fs w" "S @ cs"])
    case none with that(2) sl' show ?thesis by simp
  next
    case dir
    from F2[OF that(1) dir] have "look (fs w2) (R @ cs) \<noteq> None" .
    from G4[OF this] dir sl2 show ?thesis by simp
  next
    case (reg b m k)
    with G2[of cs b m k] sl2 show ?thesis by auto
  qed
  have Q2: "look (fs w') (S @ cs) \<noteq> None" if "cs \<noteq> []" "look (fs w') (R @ cs) \<noteq> None" for cs
    using G3[OF that(2)] F3[OF that(1)] sl2 sl' by auto
  have Q3: "\<exists>rb rm rk. look (fs w') (R @ f) = Some (Some (rb, rm, rk)) \<and> stream_digest H rb = stream_digest H sb"
    if "look (fs w') (S @ f) = Some (Some (sb, sm, sk))" for f sb sm sk
    using G2[of f sb sm sk] that sl2 sl' by simp
  have 4: "mirrored H S R (fs w')" unfolding mirrored_def using Q1 Q2 Q3 by blast
  have 5: "look (fs w) (R @ ds) = Some (Some f) \<or> (\<exists>g. look (fs w') (S @ ds) = Some (Some g))"
    if "look (fs w') (R @ ds) = Some (Some f)" for ds f
    using G6[OF that]
  proof (elim disjE)
    assume "look (fs w2) (R @ ds) = Some (Some f)"
    from F4[OF this] show ?thesis by simp
  next
    assume "\<exists>g. look (fs w2) (S @ ds) = Some (Some g)"
    then show ?thesis using sl2 sl' by simp
  qed
  from 1 2 3 4 5 show ?thesis by blast
qed

section \<open>A cycle on proper roots\<close>

lemma for_each_noop:
  "(\<And>x. x \<in> set xs \<Longrightarrow> body x w = (Inr (), w)) \<Longrightarrow> for_each body xs w = (Inr (), w)"
  by (induction xs) simp_all

lemma sync_folders_noop:
  fixes self :: SyncFiles
  defines "S \<equiv> comps (source_path self)" and "R \<equiv> comps (replica_path self)"
  assumes pr: "proper_roots self"
      and fresh: "source_folders self = []" "replica_folders self = []"
      and src: "lookup S (fs w) = Some (Dir se)" "wf_entries se"
      and rep: "lookup R (fs w) = Some (Dir re)" "wf_entries re"
      and m: "mirrored H S R (fs w)"
  shows "sync_folders self w =
           (Inr (self\<lparr>source_folders := map (join_with [BS]) (dirs_of se),
                      replica_folders := map (join_with [BS]) (dirs_of re)\<rparr>), w)"
proof -
  from pr have plain: "plain_root (source_path self)" "plain_root (replica_path self)"
    and two: "length (split_on BS (source_path self)) = 2" "length (split_on BS (replica_path self)) = 2"
    by (simp_all add: proper_roots_def)
  from m have Q1: "\<And>cs. cs \<noteq> [] \<Longrightarrow> look (fs w) (S @ cs) \<noteq> None \<Longrightarrow> look (fs w) (R @ cs) \<noteq> None"
    and Q2: "\<And>cs. cs \<noteq> [] \<Longrightarrow> look (fs w) (R @ cs) \<noteq> None \<Longrightarrow> look (fs w) (S @ cs) \<noteq> None"
    unfolding mirrored_def by blast+
  have ls: "list_dirs (fs w) [] (source_path self) = Inr (map (join_with [BS]) (dirs_of se))"
    using src by (intro list_dirs_proper plain two) (simp_all add: S_def)
  have lr: "list_dirs (fs w) [] (replica_path self) = Inr (map (join_with [BS]) (dirs_of re))"
    using rep by (intro list_dirs_proper plain two) (simp_all add: R_def)
  have paths: "comps (path_join (replica_path self) (join_with [BS] cs)) = R @ cs"
              "comps (path_join (source_path self) (join_with [BS] cs)) = S @ cs"
    if "cs \<noteq> []" "list_all good_name cs" for cs
    using that plain by (simp_all add: root_paths R_def S_def)
  have c: "for_each (create_dir self) (map (join_with [BS]) (dirs_of se)) w = (Inr (), w)"
  proof (rule for_each_noop)
    fix d assume "d \<in> set (map (join_with [BS]) (dirs_of se))"
    then obtain cs where cs: "cs \<in> set (dirs_of se)" "d = join_with [BS] cs" by auto
    from good_names_dirs_of[OF src(2) cs(1)] have g: "cs \<noteq> []" "list_all good_name cs" by simp_all
    show "create_dir self d w = (Inr (), w)"
      using Q1[OF g(1)] by (auto simp: create_dir_def cs(2) path_exists_look paths[OF g])
  qed
  have d: "for_each (delete_dir self) (map (join_with [BS]) (dirs_of re)) w = (Inr (), w)"
  proof (rule for_each_noop)
    fix d assume "d \<in> set (map (join_with [BS]) (dirs_of re))"
    then obtain cs where cs: "cs \<in> set (dirs_of re)" "d = join_with [BS] cs" by auto
    from good_names_dirs_of[OF rep(2) cs(1)] have g: "cs \<noteq> []" "list_all good_name cs" by simp_all
    show "delete_dir self d w = (Inr (), w)"
      using Q2[OF g(1)] by (auto simp: delete_dir_def cs(2) path_exists_look paths[OF g])
  qed
  show ?thesis by (simp add: sync_folders_def fresh ls lr c d then_do_def)
qed

lemma sync_files_noop:
  fixes self :: SyncFiles
  defines "S \<equiv> comps (source_path self)" and "R \<equiv> comps (replica_path self)"
  assumes pr: "proper_roots self"
      and fresh: "source_files self = []" "replica_files self = []"
      and src: "lookup S (fs w) = Some (Dir se)" "wf_entries se"
      and rep: "lookup R (fs w) = Some (Dir re)" "wf_entries re"
      and m: "mirrored H S R (fs w)"
  shows "sync_files H self w =
           (Inr (self\<lparr>source_files := map (join_with [BS]) (files_of se),
                      replica_files := map (join_with [BS]) (files_of re)\<rparr>), w)"
proof -
  from pr have plain: "plain_root (source_path self)" "plain_root (replica_path self)"
    and two: "length (split_on BS (source_path self)) = 2" "length (split_on BS (replica_path self)) = 2"
    by (simp_all add: proper_roots_def)
  from m have Q2: "\<And>cs. cs \<noteq> [] \<Longrightarrow> look (fs w) (R @ cs) \<noteq> None \<Longrightarrow> look (fs w) (S @ cs) \<noteq> None"
    and Q3: "\<And>f sb sm sk. look (fs w) (S @ f) = Some (Some (sb, sm, sk)) \<Longrightarrow>
            (\<exists>rb rm rk. look (fs w) (R @ f) = Some (Some (rb, rm, rk))
               \<and> stream_digest H rb = stream_digest H sb)"
    unfolding mirrored_def by blast+
  have ls: "list_files (fs w) [] (source_path self) = Inr (map (join_with [BS]) (files_of se))"
    using src by (intro list_files_proper plain two) (simp_all add: S_def)
  have lr: "list_files (fs w) [] (replica_path self) = Inr (map (join_with [BS]) (files_of re))"
    using rep by (intro list_files_proper plain two) (simp_all add: R_def)
  have paths: "comps (path_join (replica_path self) (join_with [BS] cs)) = R @ cs"
              "comps (path_join (source_path self) (join_with [BS] cs)) = S @ cs"
    if "cs \<noteq> []" "list_all good_name cs" for cs
    using that plain by (simp_all add: root_paths R_def S_def)
  have c: "for_each (copy_file H self) (map (join_with [BS]) (files_of se)) w = (Inr (), w)"
  proof (rule for_each_noop)
    fix d assume "d \<in> set (map (join_with [BS]) (files_of se))"
    then obtain cs where cs: "cs \<in> set (files_of se)" "d = join_with [BS] cs" by auto
    from good_names_files_of[OF src(2) cs(1)] have g: "cs \<noteq> []" "list_all good_name cs" by simp_all
    from files_of_sound[OF src(2) cs(1)] obtain sb sm sk where
      "look (Dir se) cs = Some (Some (sb, sm, sk))" by blast
    then have sf: "look (fs w) (S @ cs) = Some (Some (sb, sm, sk))" using look_at_root[OF src(1)] by simp
    from Q3[OF this] obtain rb rm rk where
      rf: "look (fs w) (R @ cs) = Some (Some (rb, rm, rk))" and dg: "stream_digest H rb = stream_digest H sb"
      by blast
    have "compare_files H (fs w) (path_join (replica_path self) d) (path_join (source_path self) d) = Inr True"
      using sf rf dg by (simp add: compare_files_def read_file_def cs(2) paths[OF g] look_lookup_file)
    then show "copy_file H self d w = (Inr (), w)"
      using sf rf by (simp add: copy_file_def Let_def path_exists_look cs(2) paths[OF g])
  qed
  have d: "for_each (delete_file self) (map (join_with [BS]) (files_of re)) w = (Inr (), w)"
  proof (rule for_each_noop)
    fix d assume "d \<in> set (map (join_with [BS]) (files_of re))"
    then obtain cs where cs: "cs \<in> set (files_of re)" "d = join_with [BS] cs" by auto
    from good_names_files_of[OF rep(2) cs(1)] have g: "cs \<noteq> []" "list_all good_name cs" by simp_all
    show "delete_file self d w = (Inr (), w)"
      using Q2[OF g(1)] by (auto simp: delete_file_def cs(2) path_exists_look paths[OF g])
  qed
  show ?thesis by (simp add: sync_files_def fresh ls lr c d then_do_def)
qed

lemma mirrored_cycle_noop:
  assumes pr: "proper_roots self"
      and fresh: "fresh_lists self"
      and src: "lookup (comps (source_path self)) (fs w) = Some (Dir se)" "wf_entries se"
      and rep: "lookup (comps (replica_path self)) (fs w) = Some (Dir re)" "wf_entries re"
      and m: "mirrored H (comps (source_path self)) (comps (replica_path self)) (fs w)"
  shows "full_sync H self w = (Inr self, w)"
proof -
  from fresh have fr: "source_folders self = []" "replica_folders self = []"
    "source_files self = []" "replica_files self = []" by (simp_all add: fresh_lists_def)
  let ?self1 = "self\<lparr>source_folders := map (join_with [BS]) (dirs_of se),
                      replica_folders := map (join_with [BS]) (dirs_of re)\<rparr>"
  have a: "sync_folders self w = (Inr ?self1, w)"
    by (rule sync_folders_noop[OF pr fr(1,2) src rep m])
  have pr1: "proper_roots ?self1" using pr by (simp add: proper_roots_def)
  have b: "sync_files H ?self1 w =
           (Inr (?self1\<lparr>source_files := map (join_with [BS]) (files_of se),
                      replica_files := map (join_with [BS]) (files_of re)\<rparr>), w)"
    using sync_files_noop[OF pr1, of w se re H] fr src rep m by simp
  show ?thesis using fr by (simp add: full_sync_def a b)
qed

lemma second_cycle_changes_nothing:
  assumes pr: "proper_roots self"
      and fresh: "fresh_lists self"
      and src: "lookup (comps (source_path self)) (fs w) = Some (Dir se)" "wf_entries se"
      and rep: "lookup (comps (replica_path self)) (fs w) = Some (Dir re)" "wf_entries re"
      and ok: "full_sync H self w = (Inr self', w')"
  shows "full_sync H self' w' = (Inr self', w')"
proof -
  note P = full_sync_post[OF pr fresh src rep ok]
  from P have s: "self' = self" and s2: "lookup (comps (source_path self)) (fs w') = lookup (comps (source_path self)) (fs w)"
    and m: "mirrored H (comps (source_path self)) (comps (replica_path self)) (fs w')"
    by blast+
  from P obtain re' where rep': "lookup (comps (replica_path self)) (fs w') = Some (Dir re')" "wf_entries re'"
    by blast
  from s2 src(1) have src': "lookup (comps (source_path self)) (fs w') = Some (Dir se)" by simp
  show ?thesis unfolding s by (rule mirrored_cycle_noop[OF pr fresh src' src(2) rep' m])
qed

lemma dirs_of_sound:
  "wf_entries es \<Longrightarrow> cs \<in> set (dirs_of es) \<Longrightarrow> look (Dir es) cs = Some None"
proof (induction es arbitrary: cs rule: dirs_of.induct)
  case 1 then show ?case by simp
next
  case (2 name b m k es)
  then have in_es: "cs \<in> set (dirs_of es)" and wf: "wf_entries es" and nn: "name \<notin> fst ` set es" by auto
  from 2(1)[OF wf in_es] have f: "look (Dir es) cs = Some None" .
  from dirs_of_nonempty[OF in_es] obtain c cs' where cs: "cs = c # cs'" by (cases cs) auto
  with f have "map_of es c \<noteq> None" by (auto simp: look_Dir_Cons split: option.splits)
  then have "c \<in> fst ` set es" by (simp add: map_of_eq_None_iff)
  with nn have "c \<noteq> name" by auto
  with f cs show ?case by (simp add: look_Dir_Cons)
next
  case (3 name sub es)
  from 3(3) have wfs: "wf_entries sub" and wf: "wf_entries es" and nn: "name \<notin> fst ` set es" by auto
  from 3(4) consider (a) "cs = [name]" | (b) cs' where "cs = name # cs'" "cs' \<in> set (dirs_of sub)"
    | (c) "cs \<in> set (dirs_of es)" by auto
  then show ?case
  proof cases
    case a then show ?thesis by (simp add: look_Dir_Cons look_def)
  next
    case b
    from 3(1)[OF wfs b(2)] b(1) show ?thesis by (simp add: look_Dir_Cons)
  next
    case c
    from 3(2)[OF wf c] have f: "look (Dir es) cs = Some None" .
    from dirs_of_nonempty[OF c] obtain c' cs' where cs: "cs = c' # cs'" by (cases cs) auto
    with f have "map_of es c' \<noteq> None" by (auto simp: look_Dir_Cons split: option.splits)
    then have "c' \<in> fst ` set es" by (simp add: map_of_eq_None_iff)
    with nn have "c' \<noteq> name" by auto
    with f cs show ?thesis by (simp add: look_Dir_Cons)
  qed
qed

lemma dirs_of_iff:
  "wf_entries es \<Longrightarrow> cs \<in> set (dirs_of es) \<longleftrightarrow> cs \<noteq> [] \<and> look (Dir es) cs = Some None"
  using dirs_of_sound dirs_of_complete dirs_of_nonempty by blast

lemma files_of_iff:
  "wf_entries es \<Longrightarrow> cs \<in> set (files_of es) \<longleftrightarrow> (\<exists>b m k. look (Dir es) cs = Some (Some (b, m, k)))"
  using files_of_sound files_of_complete by blast

lemma cycle_converges:
  fixes self :: SyncFiles
  defines "S \<equiv> comps (source_path self)" and "R \<equiv> comps (replica_path self)"
  assumes pr: "proper_roots self"
      and fresh: "fresh_lists self"
      and src: "lookup S (fs w) = Some (Dir se)" "wf_entries se"
      and rep: "lookup R (fs w) = Some (Dir re)" "wf_entries re"
      and noconf: "\<And>cs f. look (fs w) (S @ cs) = Some None \<Longrightarrow> look (fs w) (R @ cs) \<noteq> Some (Some f)"
      and ok: "full_sync H self w = (Inr self', w')"
  shows "\<exists>re'. lookup S (fs w') = Some (Dir se) \<and> lookup R (fs w') = Some (Dir re') \<and> wf_entries re'
           \<and> set (dirs_of re') = set (dirs_of se)
           \<and> set (files_of re') = set (files_of se)
           \<and> (\<forall>f sb sm sk. look (Dir se) f = Some (Some (sb, sm, sk)) \<longrightarrow>
                 (\<exists>rb rm rk. look (Dir re') f = Some (Some (rb, rm, rk))
                    \<and> stream_digest H rb = stream_digest H sb))"
proof -
  note P = full_sync_post[OF pr fresh src[unfolded S_def] rep[unfolded R_def] ok, folded S_def R_def]
  from P have s2: "lookup S (fs w') = lookup S (fs w)" and m: "mirrored H S R (fs w')"
    and old: "\<And>ds f. look (fs w') (R @ ds) = Some (Some f) \<Longrightarrow>
              look (fs w) (R @ ds) = Some (Some f) \<or> (\<exists>g. look (fs w') (S @ ds) = Some (Some g))"
    by blast+
  from P obtain re' where rep': "lookup R (fs w') = Some (Dir re')" "wf_entries re'" by blast
  from m have Q1: "\<And>cs. cs \<noteq> [] \<Longrightarrow> look (fs w') (S @ cs) \<noteq> None \<Longrightarrow> look (fs w') (R @ cs) \<noteq> None"
    and Q2: "\<And>cs. cs \<noteq> [] \<Longrightarrow> look (fs w') (R @ cs) \<noteq> None \<Longrightarrow> look (fs w') (S @ cs) \<noteq> None"
    and Q3: "\<And>f sb sm sk. look (fs w') (S @ f) = Some (Some (sb, sm, sk)) \<Longrightarrow>
            (\<exists>rb rm rk. look (fs w') (R @ f) = Some (Some (rb, rm, rk))
               \<and> stream_digest H rb = stream_digest H sb)"
    unfolding mirrored_def by blast+
  from s2 src(1) have src': "lookup S (fs w') = Some (Dir se)" by simp
  have ls: "look (fs w') (S @ cs) = look (Dir se) cs" for cs using look_at_root[OF src'] .
  have ls0: "look (fs w) (S @ cs) = look (Dir se) cs" for cs using look_at_root[OF src(1)] .
  have lr: "look (fs w') (R @ cs) = look (Dir re') cs" for cs using look_at_root[OF rep'(1)] .
  have files: "\<exists>rb rm rk. look (Dir re') f = Some (Some (rb, rm, rk)) \<and> stream_digest H rb = stream_digest H sb"
    if "look (Dir se) f = Some (Some (sb, sm, sk))" for f sb sm sk
    using Q3[of f sb sm sk] that ls lr by simp
  have dir_dir: "look (Dir re') cs = Some None" if "cs \<noteq> []" "look (Dir se) cs = Some None" for cs
  proof (cases rule: look_cases[of "Dir re'" cs])
    case none
    with Q1[OF that(1)] that(2) ls lr show ?thesis by simp
  next
    case dir then show ?thesis .
  next
    case (reg b m k)
    then have "look (fs w') (R @ cs) = Some (Some (b, m, k))" using lr by simp
    from old[OF this] show ?thesis
    proof
      assume "look (fs w) (R @ cs) = Some (Some (b, m, k))"
      moreover have "look (fs w) (S @ cs) = Some None" using that(2) ls0 by simp
      ultimately show ?thesis using noconf by blast
    next
      assume "\<exists>g. look (fs w') (S @ cs) = Some (Some g)"
      with that(2) ls show ?thesis by simp
    qed
  qed
  have rep_src: "look (Dir se) cs \<noteq> None" if "cs \<noteq> []" "look (Dir re') cs \<noteq> None" for cs
    using Q2[OF that(1)] that(2) ls lr by simp
  have dirs: "set (dirs_of re') = set (dirs_of se)"
  proof (intro set_eqI iffI)
    fix cs assume "cs \<in> set (dirs_of re')"
    then have a: "cs \<noteq> []" "look (Dir re') cs = Some None" using dirs_of_iff[OF rep'(2)] by simp_all
    show "cs \<in> set (dirs_of se)"
    proof (cases rule: look_cases[of "Dir se" cs])
      case none with rep_src[OF a(1)] a(2) show ?thesis by simp
    next
      case dir with a(1) show ?thesis using dirs_of_iff[OF src(2)] by simp
    next
      case (reg b m k)
      from files[OF this] a(2) show ?thesis by auto
    qed
  next
    fix cs assume "cs \<in> set (dirs_of se)"
    then have a: "cs \<noteq> []" "look (Dir se) cs = Some None" using dirs_of_iff[OF src(2)] by simp_all
    from dir_dir[OF a] a(1) show "cs \<in> set (dirs_of re')" using dirs_of_iff[OF rep'(2)] by simp
  qed
  have fl: "set (files_of re') = set (files_of se)"
  proof (intro set_eqI iffI)
    fix cs assume "cs \<in> set (files_of re')"
    then obtain b m k where a: "look (Dir re') cs = Some (Some (b, m, k))"
      using files_of_iff[OF rep'(2)] by blast
    then have ne: "cs \<noteq> []" by (auto simp: look_def)
    show "cs \<in> set (files_of se)"
    proof (cases rule: look_cases[of "Dir se" cs])
      case none with rep_src[OF ne] a show ?thesis by simp
    next
      case dir from dir_dir[OF ne dir] a show ?thesis by simp
    next
      case (reg b m k) then show ?thesis using files_of_iff[OF src(2)] by blast
    qed
  next
    fix cs assume "cs \<in> set (files_of se)"
    then obtain b m k where "look (Dir se) cs = Some (Some (b, m, k))"
      using files_of_iff[OF src(2)] by blast
    from files[OF this] show "cs \<in> set (files_of re')" using files_of_iff[OF rep'(2)] by blast
  qed
  from src' rep' dirs fl files show ?thesis by blast
qed

lemma for_each_error:
  "(\<And>x w. fst (body x w) \<noteq> Inl e) \<Longrightarrow> fst (for_each body xs w) \<noteq> Inl e"
proof (induction xs arbitrary: w)
  case Nil then show ?case by simp
next
  case (Cons x xs)
  show ?case
  proof (cases "body x w")
    case (Pair a w')
    with Cons.prems[of x w] Cons.IH[OF Cons.prems, of w'] show ?thesis
      by (cases a) auto
  qed
qed

lemma delete_dir_not_missing: "fst (delete_dir self d w) \<noteq> Inl FileNotFoundError"
  by (auto simp: delete_dir_def path_exists_def shutil_rmtree_def then_do_def add_log_def Let_def
           split: option.splits node.splits)

lemma create_phase_finds_parents:
  assumes pr: "proper_roots self"
      and fresh: "source_folders self = []" "replica_folders self = []"
      and src: "lookup (comps (source_path self)) (fs w) = Some (Dir se)" "wf_entries se"
      and rep: "lookup (comps (replica_path self)) (fs w) = Some (Dir re)" "wf_entries re"
  shows "fst (sync_folders self w) \<noteq> Inl FileNotFoundError"
proof -
  from pr have plain: "plain_root (source_path self)" "plain_root (replica_path self)"
    and two: "length (split_on BS (source_path self)) = 2" "length (split_on BS (replica_path self)) = 2"
    by (simp_all add: proper_roots_def)
  have ls: "list_dirs (fs w) [] (source_path self) = Inr (map (join_with [BS]) (dirs_of se))"
    using src by (intro list_dirs_proper plain two)
  have lr: "list_dirs (fs w) [] (replica_path self) = Inr (map (join_with [BS]) (dirs_of re))"
    using rep by (intro list_dirs_proper plain two)
  have gs: "\<forall>cs \<in> set (dirs_of se). cs \<noteq> [] \<and> list_all good_name cs"
    using good_names_dirs_of[OF src(2)] by blast
  have rdir: "look (fs w) (comps (replica_path self)) = Some None" using rep(1) by (simp add: look_def)
  obtain a w1 where c: "for_each (create_dir self) (map (join_with [BS]) (dirs_of se)) w = (a, w1)"
    by (cases "for_each (create_dir self) (map (join_with [BS]) (dirs_of se)) w")
  have a: "a \<noteq> Inl FileNotFoundError"
    using create_phase[OF pr gs dirs_of_parents_first rdir] unfolding c by (cases a) auto
  have d: "fst (for_each (delete_dir self) (map (join_with [BS]) (dirs_of re)) w1) \<noteq> Inl FileNotFoundError"
    by (rule for_each_error) (rule delete_dir_not_missing)
  show ?thesis
    using a d
    by (cases a; cases "for_each (delete_dir self) (map (join_with [BS]) (dirs_of re)) w1")
       (auto simp: sync_folders_def fresh ls lr c then_do_def split: sum.splits)
qed

lemma chain_is_created:
  "full_sync plain_hasher dot_sync \<lparr>fs = dot_chain_fs, events = []\<rparr> =
     (Inr dot_sync,
      \<lparr>fs = Dir [(''s'', Dir [(''a'', Dir [(''b'', Dir [(''c'', Dir [(''file.txt'', File [1] 0 0)])])])]),
                 (''r'', Dir [(''a'', Dir [(''b'', Dir [(''c'', Dir [(''file.txt'', File [1] 0 0)])])])])],
       events = [Mkdir (win_path [''.'', ''r'', ''a'']), Log ''CREATED'' (win_path [''.'', ''r'', ''a'']),
                 Mkdir (win_path [''.'', ''r'', ''a'', ''b'']), Log ''CREATED'' (win_path [''.'', ''r'', ''a'', ''b'']),
                 Mkdir (win_path [''.'', ''r'', ''a'', ''b'', ''c'']),
                 Log ''CREATED'' (win_path [''.'', ''r'', ''a'', ''b'', ''c'']),
                 Copy2 (win_path [''.'', ''s'', ''a'', ''b'', ''c'', ''file.txt''])
                       (win_path [''.'', ''r'', ''a'', ''b'', ''c'', ''file.txt'']),
                 Log ''CREATED'' (win_path [''.'', ''r'', ''a'', ''b'', ''c'', ''file.txt''])]\<rparr>)"
  by code_simp

lemma replica_only_tree_removed:
  fixes self :: SyncFiles
  defines "S \<equiv> comps (source_path self)" and "R \<equiv> comps (replica_path self)"
  assumes pr: "proper_roots self"
      and fresh: "fresh_lists self"
      and src: "lookup S (fs w) = Some (Dir se)" "wf_entries se"
      and rep: "lookup R (fs w) = Some (Dir re)" "wf_entries re"
      and only: "d \<noteq> []" "look (fs w) (S @ d) = None"
      and ok: "full_sync H self w = (Inr self', w')"
  shows "look (fs w') (R @ d @ es) = None"
proof -
  note P = full_sync_post[OF pr fresh src[unfolded S_def] rep[unfolded R_def] ok, folded S_def R_def]
  from P have s2: "lookup S (fs w') = lookup S (fs w)" and m: "mirrored H S R (fs w')" by blast+
  from m have Q2: "\<And>cs. cs \<noteq> [] \<Longrightarrow> look (fs w') (R @ cs) \<noteq> None \<Longrightarrow> look (fs w') (S @ cs) \<noteq> None"
    unfolding mirrored_def by blast
  have "look (fs w') (S @ d @ es) = look (fs w) (S @ d @ es)"
    using s2 src(1) by (simp add: look_at_root)
  also have "\<dots> = None" using look_below_None[OF only(2), of es] by simp
  finally have sn: "look (fs w') (S @ d @ es) = None" .
  show ?thesis
  proof (rule ccontr)
    assume "look (fs w') (R @ d @ es) \<noteq> None"
    with Q2[of "d @ es"] only(1) sn show False by simp
  qed
qed

section \<open>Hashing a file that fits one chunk\<close>

lemma hash_loop_small:
  "length b \<le> BUFF_SIZE \<Longrightarrow> hash_loop H st b = (if b = [] then st else h_update H st b)"
  by (subst hash_loop.simps) (simp add: hash_loop.simps[of H _ "[]"] Let_def)

lemma stream_digest_small:
  "length b \<le> BUFF_SIZE \<Longrightarrow>
     stream_digest H b = h_hexdigest H (if b = [] then h_new H else h_update H (h_new H) b)"
  by (simp add: stream_digest_def hash_loop_small del: hash_loop.simps)

text \<open>
  The plain hasher appends what it is fed and prints it: its streamed digest is the whole
  content, whatever the number of chunks.
\<close>

lemma hash_loop_plain: "hash_loop plain_hasher st b = st @ b"
proof (induction plain_hasher st b rule: hash_loop.induct)
  case (1 st rest)
  show ?case
  proof (cases "take BUFF_SIZE rest = []")
    case True
    then have "rest = []" by (auto simp: BUFF_SIZE_def)
    then show ?thesis by (subst hash_loop.simps) (simp del: hash_loop.simps)
  next
    case False
    have "hash_loop plain_hasher st rest =
            hash_loop plain_hasher (h_update plain_hasher st (take BUFF_SIZE rest)) (drop BUFF_SIZE rest)"
      using False by (subst hash_loop.simps) (simp add: Let_def del: hash_loop.simps)
    also have "\<dots> = h_update plain_hasher st (take BUFF_SIZE rest) @ drop BUFF_SIZE rest"
      using 1[OF refl False] .
    also have "\<dots> = st @ rest" by (simp add: plain_hasher_def)
    finally show ?thesis .
  qed
qed

lemma plain_digest: "stream_digest plain_hasher b = map char_of b"
proof -
  have "h_new plain_hasher = []" and "h_hexdigest plain_hasher = map char_of"
    by (simp_all add: plain_hasher_def)
  then show ?thesis unfolding stream_digest_def hash_loop_plain by simp
qed

section \<open>The trace of a cycle\<close>




lemma os_mkdir_events: "events (snd (os_mkdir p w)) = events w \<and> fst (os_mkdir p w) \<noteq> Inr () \<or>
   (\<exists>t. os_mkdir p w = (Inr (), w\<lparr>fs := t, events := events w @ [Mkdir p]\<rparr>))"
  by (auto simp: os_mkdir_def Let_def split: option.splits node.splits)










section \<open>The copy step on two files\<close>

text \<open>
  When both paths that the copy step builds hold a regular file, the step replaces the
  replica file and logs \<^verbatim>\<open>MODIFIED\<close> if the streamed digests of the two contents
  differ, and does nothing if they are equal. Modification time and permission bits are
  not read.
\<close>

lemma copy_file_on_two_files:
  assumes rep: "lookup (comps (path_join (replica_path self) f)) (fs w) = Some (File rb rt rm)"
      and src: "lookup (comps (path_join (source_path self) f)) (fs w) = Some (File sb st sm)"
  shows "(stream_digest H sb \<noteq> stream_digest H rb \<longrightarrow>
            copy_file H self f w =
              (Inr (), w\<lparr>fs := alter (comps (path_join (replica_path self) f)) (Some (File sb st sm))
                               (alter (comps (path_join (replica_path self) f)) None (fs w)),
                         events := events w @
                           [Remove (path_join (replica_path self) f),
                            Copy2 (path_join (source_path self) f) (path_join (replica_path self) f),
                            Log ''MODIFIED'' (path_join (replica_path self) f)]\<rparr>))
       \<and> (stream_digest H sb = stream_digest H rb \<longrightarrow> copy_file H self f w = (Inr (), w))
       \<and> (sb = rb \<longrightarrow> copy_file H self f w = (Inr (), w))"
proof -
  let ?rp = "path_join (replica_path self) f" and ?sp = "path_join (source_path self) f"
  have ex: "path_exists (fs w) ?rp" "path_exists (fs w) ?sp"
    using rep src by (simp_all add: path_exists_def)
  have cmp: "compare_files H (fs w) ?rp ?sp = Inr (stream_digest H rb = stream_digest H sb)"
    using rep src by (simp add: compare_files_def read_file_def)
  have eq: "stream_digest H sb = stream_digest H rb \<Longrightarrow> copy_file H self f w = (Inr (), w)"
    using ex cmp by (simp add: copy_file_def Let_def)
  have "copy_file H self f w =
          (Inr (), w\<lparr>fs := alter (comps ?rp) (Some (File sb st sm)) (alter (comps ?rp) None (fs w)),
                     events := events w @ [Remove ?rp, Copy2 ?sp ?rp, Log ''MODIFIED'' ?rp]\<rparr>)"
    if d: "stream_digest H sb \<noteq> stream_digest H rb"
  proof -
    have ne: "comps ?sp \<noteq> comps ?rp" using rep src d by auto
    have "copy_file H self f w =
            then_do (then_do (os_remove ?rp w) (shutil_copy2 ?sp ?rp)) (add_log ''MODIFIED'' ?rp (log_path self))"
      using ex cmp d by (auto simp add: copy_file_def Let_def)
    then show ?thesis using replace_file[OF rep src ne] by simp
  qed
  with eq show ?thesis by blast
qed

text \<open>
  On the roots \<^verbatim>\<open>.\s\<close> and \<^verbatim>\<open>.\r\<close> the listing names the file \<^verbatim>\<open>f\<close>, and the cycle
  replaces a replica file whose bytes differ.
\<close>

lemma differing_file_is_replaced:
  "full_sync plain_hasher dot_sync \<lparr>fs = dot_differ_fs, events = []\<rparr> =
     (Inr dot_sync,
      \<lparr>fs = Dir [(''s'', Dir [(''f'', File [1] 5 6)]), (''r'', Dir [(''f'', File [1] 5 6)])],
       events = [Remove (win_path [''.'', ''r'', ''f'']),
                 Copy2 (win_path [''.'', ''s'', ''f'']) (win_path [''.'', ''r'', ''f'']),
                 Log ''MODIFIED'' (win_path [''.'', ''r'', ''f''])]\<rparr>)"
proof -
  let ?w = "\<lparr>fs = dot_differ_fs, events = []\<rparr>"
  let ?w' = "\<lparr>fs = Dir [(''s'', Dir [(''f'', File [1] 5 6)]), (''r'', Dir [(''f'', File [1] 5 6)])],
       events = [Remove (win_path [''.'', ''r'', ''f'']),
                 Copy2 (win_path [''.'', ''s'', ''f'']) (win_path [''.'', ''r'', ''f'']),
                 Log ''MODIFIED'' (win_path [''.'', ''r'', ''f''])]\<rparr>"
  have folders: "sync_folders dot_sync ?w = (Inr dot_sync, ?w)"
    by code_simp
  have src: "list_files (fs ?w) (source_files dot_sync) (source_path dot_sync) = Inr [''f'']"
    by code_simp
  have rep: "list_files (fs ?w) (replica_files dot_sync) (replica_path dot_sync) = Inr [''f'']"
    by code_simp
  have r: "lookup (comps (path_join (replica_path dot_sync) ''f'')) (fs ?w) = Some (File [2] 7 8)"
    by code_simp
  have s: "lookup (comps (path_join (source_path dot_sync) ''f'')) (fs ?w) = Some (File [1] 5 6)"
    by code_simp
  have d: "stream_digest plain_hasher [1] \<noteq> stream_digest plain_hasher [2]"
    by (simp add: plain_digest)
  have "copy_file plain_hasher dot_sync ''f'' ?w =
          (Inr (), ?w\<lparr>fs := alter (comps (path_join (replica_path dot_sync) ''f'')) (Some (File [1] 5 6))
                               (alter (comps (path_join (replica_path dot_sync) ''f'')) None (fs ?w)),
                         events := events ?w @
                           [Remove (path_join (replica_path dot_sync) ''f''),
                            Copy2 (path_join (source_path dot_sync) ''f'') (path_join (replica_path dot_sync) ''f''),
                            Log ''MODIFIED'' (path_join (replica_path dot_sync) ''f'')]\<rparr>)"
    using copy_file_on_two_files[OF r s, of plain_hasher] d by blast
  also have "?w\<lparr>fs := alter (comps (path_join (replica_path dot_sync) ''f'')) (Some (File [1] 5 6))
                               (alter (comps (path_join (replica_path dot_sync) ''f'')) None (fs ?w)),
                         events := events ?w @
                           [Remove (path_join (replica_path dot_sync) ''f''),
                            Copy2 (path_join (source_path dot_sync) ''f'') (path_join (replica_path dot_sync) ''f''),
                            Log ''MODIFIED'' (path_join (replica_path dot_sync) ''f'')]\<rparr> = ?w'"
    by code_simp
  finally have copy: "copy_file plain_hasher dot_sync ''f'' ?w = (Inr (), ?w')" .
  have del: "delete_file dot_sync ''f'' ?w' = (Inr (), ?w')"
    by code_simp
  have loops: "then_do (for_each (copy_file plain_hasher dot_sync) [''f''] ?w)
                 (for_each (delete_file dot_sync) [''f'']) = (Inr (), ?w')"
    unfolding then_do_def for_each.simps copy prod.case sum.case del by (rule refl)
  have sfl: "sync_files plain_hasher dot_sync ?w =
          (Inr (dot_sync\<lparr>source_files := [''f''], replica_files := [''f'']\<rparr>), ?w')"
    unfolding sync_files_def src rep sum.case loops prod.case by (rule refl)
  have same: "dot_sync\<lparr>source_files := [''f''], replica_files := [''f''],
                   source_folders := [], source_files := [], replica_folders := [], replica_files := []\<rparr> = dot_sync"
    by (simp add: dot_sync_def init_def)
  show ?thesis
    unfolding full_sync_def folders sfl prod.case sum.case same by (rule refl)
qed

text \<open>
  On the same roots, the cycle leaves a replica file that has the bytes of the source
  file, whatever the modification times and the permission bits.
\<close>

lemma touched_file_is_kept:
  "full_sync plain_hasher dot_sync \<lparr>fs = touched_fs, events = []\<rparr> =
     (Inr dot_sync, \<lparr>fs = touched_fs, events = []\<rparr>)"
proof -
  let ?w = "\<lparr>fs = touched_fs, events = []\<rparr>"
  have folders: "sync_folders dot_sync ?w = (Inr dot_sync, ?w)"
    by code_simp
  have src: "list_files (fs ?w) (source_files dot_sync) (source_path dot_sync) = Inr [''f'']"
    by code_simp
  have rep: "list_files (fs ?w) (replica_files dot_sync) (replica_path dot_sync) = Inr [''f'']"
    by code_simp
  have r: "lookup (comps (path_join (replica_path dot_sync) ''f'')) (fs ?w) = Some (File [1, 2] 70 4)"
    by code_simp
  have s: "lookup (comps (path_join (source_path dot_sync) ''f'')) (fs ?w) = Some (File [1, 2] 50 6)"
    by code_simp
  have copy: "copy_file plain_hasher dot_sync ''f'' ?w = (Inr (), ?w)"
    using copy_file_on_two_files[OF r s, of plain_hasher] by blast
  have del: "delete_file dot_sync ''f'' ?w = (Inr (), ?w)"
    by code_simp
  have loops: "then_do (for_each (copy_file plain_hasher dot_sync) [''f''] ?w)
                 (for_each (delete_file dot_sync) [''f'']) = (Inr (), ?w)"
    unfolding then_do_def for_each.simps copy prod.case sum.case del by (rule refl)
  have sfl: "sync_files plain_hasher dot_sync ?w =
          (Inr (dot_sync\<lparr>source_files := [''f''], replica_files := [''f'']\<rparr>), ?w)"
    unfolding sync_files_def src rep sum.case loops prod.case by (rule refl)
  have same: "dot_sync\<lparr>source_files := [''f''], replica_files := [''f''],
                   source_folders := [], source_files := [], replica_folders := [], replica_files := []\<rparr> = dot_sync"
    by (simp add: dot_sync_def init_def)
  show ?thesis
    unfolding full_sync_def folders sfl prod.case sum.case same by (rule refl)
qed

section \<open>Properties of the program\<close>

subsection \<open>Replacement of a file whose content differs\<close>

text \<open>
  Claim C5 says that, for every pair of files present in both trees at the same relative
  path, the replica file is replaced and \<^verbatim>\<open>MODIFIED\<close> is logged if the streamed digests
  differ. Below the roots \<^verbatim>\<open>C:\d\s\<close> and \<^verbatim>\<open>C:\d\r\<close> both trees hold a file \<^verbatim>\<open>f\<close>, with
  the byte 01 in the source and the byte 02 in the replica, and the streamed digests of
  the two differ. The listing names the file \<^verbatim>\<open>s\f\<close>, which no test of the cycle finds
  below either root: the contents are not compared, the cycle ends without an error, the
  replica file keeps its byte and nothing is logged.
\<close>

theorem differing_file_is_not_replaced:
  "lookup (comps (path_join (source_path deep_sync) ''f'')) differ_fs = Some (File [1] 0 0)
   \<and> lookup (comps (path_join (replica_path deep_sync) ''f'')) differ_fs = Some (File [2] 0 0)
   \<and> stream_digest plain_hasher [1] \<noteq> stream_digest plain_hasher [2]
   \<and> list_files differ_fs [] (source_path deep_sync) = Inr [win_path [''s'', ''f'']]
   \<and> full_sync plain_hasher deep_sync \<lparr>fs = differ_fs, events = []\<rparr> =
       (Inr deep_sync, \<lparr>fs = differ_fs, events = []\<rparr>)"
proof -
  have "stream_digest plain_hasher [1] \<noteq> stream_digest plain_hasher [2]"
    by (simp add: plain_digest)
  moreover have "lookup (comps (path_join (source_path deep_sync) ''f'')) differ_fs = Some (File [1] 0 0)
   \<and> lookup (comps (path_join (replica_path deep_sync) ''f'')) differ_fs = Some (File [2] 0 0)
   \<and> list_files differ_fs [] (source_path deep_sync) = Inr [win_path [''s'', ''f'']]
   \<and> full_sync plain_hasher deep_sync \<lparr>fs = differ_fs, events = []\<rparr> =
       (Inr deep_sync, \<lparr>fs = differ_fs, events = []\<rparr>)"
    by code_simp
  ultimately show ?thesis by blast
qed

subsection \<open>One log entry for each mutation\<close>



subsection \<open>The constructor shares no list\<close>

lemma list_append_next [simp]: "next_addr (list_append a v st) = next_addr st"
  by (simp add: list_append_def split: option.splits)



lemma appends_next [simp]: "next_addr (appends ops st) = next_addr st"
  by (induction ops st rule: appends.induct) simp_all






subsection \<open>The checks at startup\<close>

lemma main_rejects_before_any_cycle:
  "length argv \<noteq> 5 \<Longrightarrow> main H exts argv w = (Inl TypeError, w)"
  "length argv = 5 \<Longrightarrow> list_ex (\<lambda>i. \<not> path_exists (fs w) i) (take 3 (drop 1 argv)) \<Longrightarrow>
     main H exts argv w = (Inl FileNotFoundError, w)"
  "length argv = 5 \<Longrightarrow> \<not> list_ex (\<lambda>i. \<not> path_exists (fs w) i) (take 3 (drop 1 argv)) \<Longrightarrow>
     \<not> isnumeric (argv ! 4) \<Longrightarrow> main H exts argv w = (Inl ValueError, w)"
  by (simp_all add: main_def)

text \<open>
  Claim C9. Any number of arguments other than four ends the process with a usage error,
  a missing path with a not-found error and an interval that \<^verbatim>\<open>isnumeric\<close> refuses
  with a format error, each before any cycle (lemma \<open>main_rejects_before_any_cycle\<close>).
  The check of the interval is \<^verbatim>\<open>isnumeric\<close>, though, and the interval is read with
  \<^verbatim>\<open>int\<close> only after the first cycle. For the interval made of the one character
  superscript two, which \<^verbatim>\<open>isnumeric\<close> accepts and \<^verbatim>\<open>int\<close> refuses, the process
  makes the directory in the replica, logs it, and only then ends with the format error.
\<close>

theorem superscript_interval_fails_after_a_cycle:
  "isnumeric [CHR 0xB2] \<and> py_int [CHR 0xB2] = None \<and>
   main plain_hasher [\<lambda>t. t] (dot_argv [CHR 0xB2]) \<lparr>fs = startup_fs, events = []\<rparr> =
     (Inl ValueError,
      \<lparr>fs = Dir [(''s'', Dir [(''docs'', Dir [])]), (''r'', Dir [(''docs'', Dir [])]), (''log.txt'', File [] 0 0)],
       events = [Mkdir (win_path [''.'', ''r'', ''docs'']), Log ''CREATED'' (win_path [''.'', ''r'', ''docs''])]\<rparr>)"
  by code_simp

subsection \<open>A root that is missing\<close>

text \<open>
  Claim C8, as stated, fails. The replica root is removed during the first sleep and made
  again during the second. The second cycle raises the not-found error of the listing,
  nothing catches it, and the process has ended: there is no third cycle.
\<close>

theorem vanished_root_ends_process_counterexample:
  "main plain_hasher vanish_then_restore (dot_argv ''10'') \<lparr>fs = idle_fs, events = []\<rparr> =
     (Inl FileNotFoundError, \<lparr>fs = Dir [(''s'', Dir []), (''log.txt'', File [] 0 0)], events = []\<rparr>)"
  by code_simp

lemma list_dirs_missing_root:
  "\<not> path_exists t p \<Longrightarrow> list_dirs t acc p = Inl FileNotFoundError"
  by (simp add: list_dirs_def scandir_def path_exists_def)

lemma list_files_missing_root:
  "\<not> path_exists t p \<Longrightarrow> list_files t acc p = Inl FileNotFoundError"
  by (simp add: list_files_def scandir_def path_exists_def)

lemma list_dirs_of_dir:
  "is_dir t p \<Longrightarrow> \<exists>fl. list_dirs t acc p = Inr fl"
  by (auto simp: list_dirs_def scandir_def is_dir_def split: option.splits node.splits)

lemma list_files_of_dir:
  "is_dir t p \<Longrightarrow> \<exists>fl. list_files t acc p = Inr fl"
  by (auto simp: list_files_def scandir_def is_dir_def split: option.splits node.splits)

lemma sync_folders_paths:
  "sync_folders self w = (Inr self1, w1) \<Longrightarrow>
     source_path self1 = source_path self \<and> replica_path self1 = replica_path self"
  by (auto simp: sync_folders_def split: sum.splits prod.splits)

lemma sync_folders_missing_root:
  assumes "\<not> path_exists (fs w) (source_path self)
           \<or> is_dir (fs w) (source_path self) \<and> \<not> path_exists (fs w) (replica_path self)"
  shows "sync_folders self w = (Inl FileNotFoundError, w)"
  using assms list_dirs_of_dir[of "fs w" "source_path self" "source_folders self"]
  by (auto simp: sync_folders_def list_dirs_missing_root)

lemma sync_files_missing_root:
  assumes "\<not> path_exists (fs w) (source_path self)
           \<or> is_dir (fs w) (source_path self) \<and> \<not> path_exists (fs w) (replica_path self)"
  shows "sync_files H self w = (Inl FileNotFoundError, w)"
  using assms list_files_of_dir[of "fs w" "source_path self" "source_files self"]
  by (auto simp: sync_files_def list_files_missing_root)

text \<open>
  Claim C8, amended. A cycle lists the two roots at its start and again after its
  directory phase, the source first. If at one of these two points the root that the
  listings reach is missing (the source root, or the replica root when the source root is
  a directory), then the listings of a missing root fail with the not-found error,
  \<^verbatim>\<open>full_sync\<close> passes the error on and leaves what the cycle did before, and the
  launcher does not catch it: the process ends with that error and runs no further cycle.
  Here \<open>w\<close> is the world at the start of the cycle and \<open>w1\<close> the world at the listing:
  \<open>w\<close> itself, or the world that the directory phase ends in.
\<close>

theorem missing_root_ends_process:
  assumes reach: "w1 = w
           \<or> (\<exists>self1. sync_folders (init (argv ! 1) (argv ! 2) (argv ! 3) (argv ! 4) [] [] [] []) w = (Inr self1, w1))"
      and gone: "\<not> path_exists (fs w1) (argv ! 1)
           \<or> is_dir (fs w1) (argv ! 1) \<and> \<not> path_exists (fs w1) (argv ! 2)"
  shows "(\<not> path_exists (fs w1) (argv ! 1) \<longrightarrow>
            list_dirs (fs w1) acc (argv ! 1) = Inl FileNotFoundError
            \<and> list_files (fs w1) acc (argv ! 1) = Inl FileNotFoundError)
       \<and> (\<not> path_exists (fs w1) (argv ! 2) \<longrightarrow>
            list_dirs (fs w1) acc (argv ! 2) = Inl FileNotFoundError
            \<and> list_files (fs w1) acc (argv ! 2) = Inl FileNotFoundError)
       \<and> full_sync H (init (argv ! 1) (argv ! 2) (argv ! 3) (argv ! 4) [] [] [] []) w = (Inl FileNotFoundError, w1)
       \<and> main_loop H (ext # exts) argv w = (Inl FileNotFoundError, w1)"
proof -
  let ?self = "init (argv ! 1) (argv ! 2) (argv ! 3) (argv ! 4) [] [] [] []"
  have sp: "source_path ?self = argv ! 1" and rp: "replica_path ?self = argv ! 2"
    by (simp_all add: init_def)
  have listing: "\<not> path_exists (fs w1) p \<longrightarrow>
            list_dirs (fs w1) acc p = Inl FileNotFoundError
            \<and> list_files (fs w1) acc p = Inl FileNotFoundError" for p
    using list_dirs_missing_root list_files_missing_root by blast
  from reach have fsync: "full_sync H ?self w = (Inl FileNotFoundError, w1)"
  proof
    assume "w1 = w"
    with gone have "\<not> path_exists (fs w) (source_path ?self)
        \<or> is_dir (fs w) (source_path ?self) \<and> \<not> path_exists (fs w) (replica_path ?self)"
      unfolding sp rp by blast
    then have "sync_folders ?self w = (Inl FileNotFoundError, w)"
      by (rule sync_folders_missing_root)
    with \<open>w1 = w\<close> show ?thesis by (simp add: full_sync_def)
  next
    assume "\<exists>self1. sync_folders ?self w = (Inr self1, w1)"
    then obtain self1 where sf: "sync_folders ?self w = (Inr self1, w1)" by blast
    from sync_folders_paths[OF sf] have p1: "source_path self1 = argv ! 1" and p2: "replica_path self1 = argv ! 2"
      unfolding sp rp by blast+
    from gone have "\<not> path_exists (fs w1) (source_path self1)
        \<or> is_dir (fs w1) (source_path self1) \<and> \<not> path_exists (fs w1) (replica_path self1)"
      unfolding p1 p2 by blast
    then have "sync_files H self1 w1 = (Inl FileNotFoundError, w1)"
      by (rule sync_files_missing_root)
    with sf show ?thesis by (simp add: full_sync_def)
  qed
  then have "main_loop H (ext # exts) argv w = (Inl FileNotFoundError, w1)" by simp
  with listing[of "argv ! 1"] listing[of "argv ! 2"] fsync show ?thesis by blast
qed

theorem missing_root_ends_process_witness:
  "list_dirs (Dir [(''s'', Dir [])]) [] (win_path [''.'', ''r'']) = Inl FileNotFoundError
   \<and> main_loop plain_hasher [\<lambda>t. t, \<lambda>t. t] (dot_argv ''10'') \<lparr>fs = Dir [(''s'', Dir [])], events = []\<rparr>
     = (Inl FileNotFoundError, \<lparr>fs = Dir [(''s'', Dir [])], events = []\<rparr>)
   \<and> list_files (Dir [(''r'', Dir [(''d'', Dir [])])]) [] (win_path [''r'', ''s'']) = Inl FileNotFoundError
   \<and> main_loop plain_hasher [\<lambda>t. t, \<lambda>t. t] inside_argv \<lparr>fs = inside_fs, events = []\<rparr>
     = (Inl FileNotFoundError,
        \<lparr>fs = Dir [(''r'', Dir [(''d'', Dir [])])],
         events = [Mkdir (win_path [''.'', ''r'', ''d'']), Log ''CREATED'' (win_path [''.'', ''r'', ''d'']),
                   Rmtree (win_path [''.'', ''r'', ''s'']), Log ''REMOVED'' (win_path [''.'', ''r'', ''s''])]\<rparr>)"
proof -
  let ?w = "\<lparr>fs = Dir [(''s'', Dir [])], events = []\<rparr>"
  let ?v = "\<lparr>fs = inside_fs, events = []\<rparr>"
  let ?v1 = "\<lparr>fs = Dir [(''r'', Dir [(''d'', Dir [])])],
         events = [Mkdir (win_path [''.'', ''r'', ''d'']), Log ''CREATED'' (win_path [''.'', ''r'', ''d'']),
                   Rmtree (win_path [''.'', ''r'', ''s'']), Log ''REMOVED'' (win_path [''.'', ''r'', ''s''])]\<rparr>"
  have a: "is_dir (fs ?w) (dot_argv ''10'' ! 1) \<and> \<not> path_exists (fs ?w) (dot_argv ''10'' ! 2)"
    by code_simp
  have a': "fs ?w = Dir [(''s'', Dir [])] \<and> dot_argv ''10'' ! 2 = win_path [''.'', ''r'']"
    by code_simp
  have b: "sync_folders (init (inside_argv ! 1) (inside_argv ! 2) (inside_argv ! 3) (inside_argv ! 4) [] [] [] []) ?v
            = (Inr (init (inside_argv ! 1) (inside_argv ! 2) (inside_argv ! 3) (inside_argv ! 4)
                      [''d''] [''s'', win_path [''s'', ''d'']] [] []), ?v1)"
    by code_simp
  have c: "\<not> path_exists (fs ?v1) (inside_argv ! 1)"
    by code_simp
  have c': "fs ?v1 = Dir [(''r'', Dir [(''d'', Dir [])])] \<and> inside_argv ! 1 = win_path [''r'', ''s'']"
    by code_simp
  from a have 1: "list_dirs (fs ?w) [] (dot_argv ''10'' ! 2) = Inl FileNotFoundError
      \<and> main_loop plain_hasher [\<lambda>t. t, \<lambda>t. t] (dot_argv ''10'') ?w = (Inl FileNotFoundError, ?w)"
    using missing_root_ends_process[of ?w ?w "dot_argv ''10''" "[]" plain_hasher "\<lambda>t. t" "[\<lambda>t. t]"]
    by blast
  from b c have 2: "list_files (fs ?v1) [] (inside_argv ! 1) = Inl FileNotFoundError
      \<and> main_loop plain_hasher [\<lambda>t. t, \<lambda>t. t] inside_argv ?v = (Inl FileNotFoundError, ?v1)"
    using missing_root_ends_process[of ?v1 ?v inside_argv "[]" plain_hasher "\<lambda>t. t" "[\<lambda>t. t]"]
    by blast
  from 1 2 show ?thesis unfolding conjunct1[OF a'] conjunct2[OF a'] conjunct1[OF c'] conjunct2[OF c'] by blast
qed

subsection \<open>Convergence\<close>

text \<open>
  Claim C1 says that one cycle makes the directories and the files of the replica those of
  the source, for every pair of trees. Here the source holds an empty directory \<^verbatim>\<open>x\<close>
  and the replica a file \<^verbatim>\<open>x\<close>: every existence test of the cycle finds the path on
  both sides, the cycle ends without an error, a mutation or a log entry, and the replica
  still has the file and no directory.
\<close>

theorem convergence_fails_on_type_conflict:
  "full_sync plain_hasher dot_sync \<lparr>fs = conflict_fs, events = []\<rparr> = (Inr dot_sync, \<lparr>fs = conflict_fs, events = []\<rparr>)
   \<and> list_dirs conflict_fs [] (source_path dot_sync) = Inr [''x'']
   \<and> list_dirs conflict_fs [] (replica_path dot_sync) = Inr []
   \<and> list_files conflict_fs [] (source_path dot_sync) = Inr []
   \<and> list_files conflict_fs [] (replica_path dot_sync) = Inr [''x'']"
  by code_simp

subsection \<open>Relative paths\<close>

text \<open>
  Claim C2 says that the listings produce each path relative to the root they are given,
  whatever the depth of the root. The code drops the first two components of the path of
  an entry: for the root \<^verbatim>\<open>C:\d\s\<close>, of three components, the directory \<^verbatim>\<open>a\<close> is
  listed as \<^verbatim>\<open>s\a\<close> and its file as \<^verbatim>\<open>s\a\f\<close>. Joined with a root, the listed path
  addresses nothing, and the cycle leaves the replica empty.
\<close>

theorem listing_keeps_root_component:
  "list_dirs deep_fs [] (win_path [''C:'', ''d'', ''s'']) = Inr [win_path [''s'', ''a'']]
   \<and> list_files deep_fs [] (win_path [''C:'', ''d'', ''s'']) = Inr [win_path [''s'', ''a'', ''f'']]
   \<and> \<not> path_exists deep_fs (path_join (win_path [''C:'', ''d'', ''s'']) (win_path [''s'', ''a'']))
   \<and> is_dir deep_fs (path_join (win_path [''C:'', ''d'', ''s'']) ''a'')
   \<and> full_sync plain_hasher deep_sync \<lparr>fs = deep_fs, events = []\<rparr> = (Inr deep_sync, \<lparr>fs = deep_fs, events = []\<rparr>)"
  by code_simp

subsection \<open>A second cycle\<close>

text \<open>
  Claim C3 says that a cycle right after a successful cycle mutates nothing and logs
  nothing. With the roots \<^verbatim>\<open>C:\a\s\<close> and \<^verbatim>\<open>C:\b\s\<close> the listed paths keep the
  component \<^verbatim>\<open>s\<close>: the first cycle succeeds and makes one directory in the replica,
  and the second cycle, run on the outcome of the first, removes another one.
\<close>

theorem second_cycle_removes_a_directory:
  "full_sync plain_hasher twin_sync \<lparr>fs = twin_fs [(''s'', Dir [(''p'', Dir [])])], events = []\<rparr> =
     (Inr twin_sync,
      \<lparr>fs = twin_fs [(''s'', Dir [(''p'', Dir [])]), (''p'', Dir [])],
       events = [Mkdir (win_path [''C:'', ''b'', ''s'', ''s'', ''p'']),
                 Log ''CREATED'' (win_path [''C:'', ''b'', ''s'', ''s'', ''p''])]\<rparr>)
   \<and> full_sync plain_hasher twin_sync \<lparr>fs = twin_fs [(''s'', Dir [(''p'', Dir [])]), (''p'', Dir [])], events = []\<rparr> =
     (Inr twin_sync,
      \<lparr>fs = twin_fs [(''s'', Dir []), (''p'', Dir [])],
       events = [Rmtree (win_path [''C:'', ''b'', ''s'', ''s'', ''s'', ''p'']),
                 Log ''REMOVED'' (win_path [''C:'', ''b'', ''s'', ''s'', ''s'', ''p''])]\<rparr>)"
  by code_simp

subsection \<open>Parents before children\<close>

text \<open>
  Claim C4 says that the order of the listing keeps \<^verbatim>\<open>os.mkdir\<close> from failing on a
  missing parent, and that a source \<^verbatim>\<open>a\b\c\file.txt\<close> is created in an empty replica
  in one cycle. With the roots \<^verbatim>\<open>C:\d\s\<close> and \<^verbatim>\<open>C:\d\r\<close>, a source with the
  directories \<^verbatim>\<open>a\<close> and \<^verbatim>\<open>s\a\<close> makes the create phase call \<^verbatim>\<open>os.mkdir\<close> on
  \<^verbatim>\<open>C:\d\r\s\a\<close>, whose parent does not exist, and the cycle ends with that error; and
  for the source \<^verbatim>\<open>a\b\c\file.txt\<close> the cycle creates nothing.
\<close>

theorem mkdir_fails_on_missing_parent:
  "list_dirs orphan_fs [] (source_path deep_sync) =
     Inr [win_path [''s'', ''a''], win_path [''s'', ''s''], win_path [''s'', ''s'', ''a'']]
   \<and> os_mkdir (win_path [''C:'', ''d'', ''r'', ''s'', ''a'']) \<lparr>fs = orphan_fs, events = []\<rparr>
       = (Inl FileNotFoundError, \<lparr>fs = orphan_fs, events = []\<rparr>)
   \<and> full_sync plain_hasher deep_sync \<lparr>fs = orphan_fs, events = []\<rparr>
       = (Inl FileNotFoundError, \<lparr>fs = orphan_fs, events = []\<rparr>)
   \<and> full_sync plain_hasher deep_sync \<lparr>fs = chain_fs, events = []\<rparr>
       = (Inr deep_sync, \<lparr>fs = chain_fs, events = []\<rparr>)"
  by code_simp

subsection \<open>Directories only in the replica\<close>

text \<open>
  Claim C6 says that one cycle removes a directory that is only in the replica, with one
  \<^verbatim>\<open>REMOVED\<close> entry. With the roots \<^verbatim>\<open>C:\d\s\<close> and \<^verbatim>\<open>C:\d\r\<close> the directory
  \<^verbatim>\<open>old\<close> of the replica is listed as \<^verbatim>\<open>r\old\<close>, the existence test looks at
  \<^verbatim>\<open>C:\d\r\r\old\<close>, and the cycle ends with the directory in place and no log entry.
\<close>

theorem replica_only_directory_stays:
  "is_dir stale_fs (path_join (replica_path deep_sync) ''old'')
   \<and> \<not> path_exists stale_fs (path_join (source_path deep_sync) ''old'')
   \<and> full_sync plain_hasher deep_sync \<lparr>fs = stale_fs, events = []\<rparr>
       = (Inr deep_sync, \<lparr>fs = stale_fs, events = []\<rparr>)"
  by code_simp

end
